theory Spec2Isabelle
  imports Complex_Main
begin

section \<open>Python strings and the Unicode character classes\<close>

text \<open>
  A Python \<^verbatim>\<open>str\<close> is a sequence of Unicode code points; it is modelled as the list of
  its code points. \<open>u\<close> reads an ASCII literal as such a string.
\<close>

type_synonym ustring = "nat list"

definition u :: "string \<Rightarrow> ustring" where
  "u cs = map of_char cs"

text \<open>
  The classes that \<^verbatim>\<open>re\<close> and the \<^verbatim>\<open>str\<close> methods consult are tables of the
  interpreter's Unicode database (Unicode 14.0.0, the tables of CPython 3.11), written
  as inclusive code point ranges:
  \<^item> \<open>alpha_ranges\<close>: \<^verbatim>\<open>str.isalpha\<close>;
  \<^item> \<open>decimal_ranges\<close>: \<^verbatim>\<open>str.isdecimal\<close>, which is what \<^verbatim>\<open>\d\<close> matches in a
    \<^verbatim>\<open>str\<close> pattern (general category Nd);
  \<^item> \<open>digit_ranges\<close>: \<^verbatim>\<open>str.isdigit\<close>;
  \<^item> \<open>numeric_ranges\<close>: \<^verbatim>\<open>str.isnumeric\<close>;
  \<^item> \<open>space_ranges\<close>: \<^verbatim>\<open>str.isspace\<close>, which is what \<^verbatim>\<open>\s\<close>, \<^verbatim>\<open>str.strip()\<close>
    and \<^verbatim>\<open>str.split()\<close> use.
\<close>

fun in_ranges :: "(nat \<times> nat) list \<Rightarrow> nat \<Rightarrow> bool" where
  "in_ranges [] c = False"
| "in_ranges ((lo, hi) # rs) c = ((lo \<le> c \<and> c \<le> hi) \<or> in_ranges rs c)"

definition alpha_ranges :: "(nat \<times> nat) list" where
  "alpha_ranges =
    [(0x41, 0x5A), (0x61, 0x7A), (0xAA, 0xAA), (0xB5, 0xB5), (0xBA, 0xBA), (0xC0, 0xD6),
     (0xD8, 0xF6), (0xF8, 0x2C1), (0x2C6, 0x2D1), (0x2E0, 0x2E4), (0x2EC, 0x2EC), (0x2EE, 0x2EE),
     (0x370, 0x374), (0x376, 0x377), (0x37A, 0x37D), (0x37F, 0x37F), (0x386, 0x386), (0x388, 0x38A),
     (0x38C, 0x38C), (0x38E, 0x3A1), (0x3A3, 0x3F5), (0x3F7, 0x481), (0x48A, 0x52F), (0x531, 0x556),
     (0x559, 0x559), (0x560, 0x588), (0x5D0, 0x5EA), (0x5EF, 0x5F2), (0x620, 0x64A), (0x66E, 0x66F),
     (0x671, 0x6D3), (0x6D5, 0x6D5), (0x6E5, 0x6E6), (0x6EE, 0x6EF), (0x6FA, 0x6FC), (0x6FF, 0x6FF),
     (0x710, 0x710), (0x712, 0x72F), (0x74D, 0x7A5), (0x7B1, 0x7B1), (0x7CA, 0x7EA), (0x7F4, 0x7F5),
     (0x7FA, 0x7FA), (0x800, 0x815), (0x81A, 0x81A), (0x824, 0x824), (0x828, 0x828), (0x840, 0x858),
     (0x860, 0x86A), (0x870, 0x887), (0x889, 0x88E), (0x8A0, 0x8C9), (0x904, 0x939), (0x93D, 0x93D),
     (0x950, 0x950), (0x958, 0x961), (0x971, 0x980), (0x985, 0x98C), (0x98F, 0x990), (0x993, 0x9A8),
     (0x9AA, 0x9B0), (0x9B2, 0x9B2), (0x9B6, 0x9B9), (0x9BD, 0x9BD), (0x9CE, 0x9CE), (0x9DC, 0x9DD),
     (0x9DF, 0x9E1), (0x9F0, 0x9F1), (0x9FC, 0x9FC), (0xA05, 0xA0A), (0xA0F, 0xA10), (0xA13, 0xA28),
     (0xA2A, 0xA30), (0xA32, 0xA33), (0xA35, 0xA36), (0xA38, 0xA39), (0xA59, 0xA5C), (0xA5E, 0xA5E),
     (0xA72, 0xA74), (0xA85, 0xA8D), (0xA8F, 0xA91), (0xA93, 0xAA8), (0xAAA, 0xAB0), (0xAB2, 0xAB3),
     (0xAB5, 0xAB9), (0xABD, 0xABD), (0xAD0, 0xAD0), (0xAE0, 0xAE1), (0xAF9, 0xAF9), (0xB05, 0xB0C),
     (0xB0F, 0xB10), (0xB13, 0xB28), (0xB2A, 0xB30), (0xB32, 0xB33), (0xB35, 0xB39), (0xB3D, 0xB3D),
     (0xB5C, 0xB5D), (0xB5F, 0xB61), (0xB71, 0xB71), (0xB83, 0xB83), (0xB85, 0xB8A), (0xB8E, 0xB90),
     (0xB92, 0xB95), (0xB99, 0xB9A), (0xB9C, 0xB9C), (0xB9E, 0xB9F), (0xBA3, 0xBA4), (0xBA8, 0xBAA),
     (0xBAE, 0xBB9), (0xBD0, 0xBD0), (0xC05, 0xC0C), (0xC0E, 0xC10), (0xC12, 0xC28), (0xC2A, 0xC39),
     (0xC3D, 0xC3D), (0xC58, 0xC5A), (0xC5D, 0xC5D), (0xC60, 0xC61), (0xC80, 0xC80), (0xC85, 0xC8C),
     (0xC8E, 0xC90), (0xC92, 0xCA8), (0xCAA, 0xCB3), (0xCB5, 0xCB9), (0xCBD, 0xCBD), (0xCDD, 0xCDE),
     (0xCE0, 0xCE1), (0xCF1, 0xCF2), (0xD04, 0xD0C), (0xD0E, 0xD10), (0xD12, 0xD3A), (0xD3D, 0xD3D),
     (0xD4E, 0xD4E), (0xD54, 0xD56), (0xD5F, 0xD61), (0xD7A, 0xD7F), (0xD85, 0xD96), (0xD9A, 0xDB1),
     (0xDB3, 0xDBB), (0xDBD, 0xDBD), (0xDC0, 0xDC6), (0xE01, 0xE30), (0xE32, 0xE33), (0xE40, 0xE46),
     (0xE81, 0xE82), (0xE84, 0xE84), (0xE86, 0xE8A), (0xE8C, 0xEA3), (0xEA5, 0xEA5), (0xEA7, 0xEB0),
     (0xEB2, 0xEB3), (0xEBD, 0xEBD), (0xEC0, 0xEC4), (0xEC6, 0xEC6), (0xEDC, 0xEDF), (0xF00, 0xF00),
     (0xF40, 0xF47), (0xF49, 0xF6C), (0xF88, 0xF8C), (0x1000, 0x102A), (0x103F, 0x103F), (0x1050, 0x1055),
     (0x105A, 0x105D), (0x1061, 0x1061), (0x1065, 0x1066), (0x106E, 0x1070), (0x1075, 0x1081), (0x108E, 0x108E),
     (0x10A0, 0x10C5), (0x10C7, 0x10C7), (0x10CD, 0x10CD), (0x10D0, 0x10FA), (0x10FC, 0x1248), (0x124A, 0x124D),
     (0x1250, 0x1256), (0x1258, 0x1258), (0x125A, 0x125D), (0x1260, 0x1288), (0x128A, 0x128D), (0x1290, 0x12B0),
     (0x12B2, 0x12B5), (0x12B8, 0x12BE), (0x12C0, 0x12C0), (0x12C2, 0x12C5), (0x12C8, 0x12D6), (0x12D8, 0x1310),
     (0x1312, 0x1315), (0x1318, 0x135A), (0x1380, 0x138F), (0x13A0, 0x13F5), (0x13F8, 0x13FD), (0x1401, 0x166C),
     (0x166F, 0x167F), (0x1681, 0x169A), (0x16A0, 0x16EA), (0x16F1, 0x16F8), (0x1700, 0x1711), (0x171F, 0x1731),
     (0x1740, 0x1751), (0x1760, 0x176C), (0x176E, 0x1770), (0x1780, 0x17B3), (0x17D7, 0x17D7), (0x17DC, 0x17DC),
     (0x1820, 0x1878), (0x1880, 0x1884), (0x1887, 0x18A8), (0x18AA, 0x18AA), (0x18B0, 0x18F5), (0x1900, 0x191E),
     (0x1950, 0x196D), (0x1970, 0x1974), (0x1980, 0x19AB), (0x19B0, 0x19C9), (0x1A00, 0x1A16), (0x1A20, 0x1A54),
     (0x1AA7, 0x1AA7), (0x1B05, 0x1B33), (0x1B45, 0x1B4C), (0x1B83, 0x1BA0), (0x1BAE, 0x1BAF), (0x1BBA, 0x1BE5),
     (0x1C00, 0x1C23), (0x1C4D, 0x1C4F), (0x1C5A, 0x1C7D), (0x1C80, 0x1C88), (0x1C90, 0x1CBA), (0x1CBD, 0x1CBF),
     (0x1CE9, 0x1CEC), (0x1CEE, 0x1CF3), (0x1CF5, 0x1CF6), (0x1CFA, 0x1CFA), (0x1D00, 0x1DBF), (0x1E00, 0x1F15),
     (0x1F18, 0x1F1D), (0x1F20, 0x1F45), (0x1F48, 0x1F4D), (0x1F50, 0x1F57), (0x1F59, 0x1F59), (0x1F5B, 0x1F5B),
     (0x1F5D, 0x1F5D), (0x1F5F, 0x1F7D), (0x1F80, 0x1FB4), (0x1FB6, 0x1FBC), (0x1FBE, 0x1FBE), (0x1FC2, 0x1FC4),
     (0x1FC6, 0x1FCC), (0x1FD0, 0x1FD3), (0x1FD6, 0x1FDB), (0x1FE0, 0x1FEC), (0x1FF2, 0x1FF4), (0x1FF6, 0x1FFC),
     (0x2071, 0x2071), (0x207F, 0x207F), (0x2090, 0x209C), (0x2102, 0x2102), (0x2107, 0x2107), (0x210A, 0x2113),
     (0x2115, 0x2115), (0x2119, 0x211D), (0x2124, 0x2124), (0x2126, 0x2126), (0x2128, 0x2128), (0x212A, 0x212D),
     (0x212F, 0x2139), (0x213C, 0x213F), (0x2145, 0x2149), (0x214E, 0x214E), (0x2183, 0x2184), (0x2C00, 0x2CE4),
     (0x2CEB, 0x2CEE), (0x2CF2, 0x2CF3), (0x2D00, 0x2D25), (0x2D27, 0x2D27), (0x2D2D, 0x2D2D), (0x2D30, 0x2D67),
     (0x2D6F, 0x2D6F), (0x2D80, 0x2D96), (0x2DA0, 0x2DA6), (0x2DA8, 0x2DAE), (0x2DB0, 0x2DB6), (0x2DB8, 0x2DBE),
     (0x2DC0, 0x2DC6), (0x2DC8, 0x2DCE), (0x2DD0, 0x2DD6), (0x2DD8, 0x2DDE), (0x2E2F, 0x2E2F), (0x3005, 0x3006),
     (0x3031, 0x3035), (0x303B, 0x303C), (0x3041, 0x3096), (0x309D, 0x309F), (0x30A1, 0x30FA), (0x30FC, 0x30FF),
     (0x3105, 0x312F), (0x3131, 0x318E), (0x31A0, 0x31BF), (0x31F0, 0x31FF), (0x3400, 0x4DBF), (0x4E00, 0xA48C),
     (0xA4D0, 0xA4FD), (0xA500, 0xA60C), (0xA610, 0xA61F), (0xA62A, 0xA62B), (0xA640, 0xA66E), (0xA67F, 0xA69D),
     (0xA6A0, 0xA6E5), (0xA717, 0xA71F), (0xA722, 0xA788), (0xA78B, 0xA7CA), (0xA7D0, 0xA7D1), (0xA7D3, 0xA7D3),
     (0xA7D5, 0xA7D9), (0xA7F2, 0xA801), (0xA803, 0xA805), (0xA807, 0xA80A), (0xA80C, 0xA822), (0xA840, 0xA873),
     (0xA882, 0xA8B3), (0xA8F2, 0xA8F7), (0xA8FB, 0xA8FB), (0xA8FD, 0xA8FE), (0xA90A, 0xA925), (0xA930, 0xA946),
     (0xA960, 0xA97C), (0xA984, 0xA9B2), (0xA9CF, 0xA9CF), (0xA9E0, 0xA9E4), (0xA9E6, 0xA9EF), (0xA9FA, 0xA9FE),
     (0xAA00, 0xAA28), (0xAA40, 0xAA42), (0xAA44, 0xAA4B), (0xAA60, 0xAA76), (0xAA7A, 0xAA7A), (0xAA7E, 0xAAAF),
     (0xAAB1, 0xAAB1), (0xAAB5, 0xAAB6), (0xAAB9, 0xAABD), (0xAAC0, 0xAAC0), (0xAAC2, 0xAAC2), (0xAADB, 0xAADD),
     (0xAAE0, 0xAAEA), (0xAAF2, 0xAAF4), (0xAB01, 0xAB06), (0xAB09, 0xAB0E), (0xAB11, 0xAB16), (0xAB20, 0xAB26),
     (0xAB28, 0xAB2E), (0xAB30, 0xAB5A), (0xAB5C, 0xAB69), (0xAB70, 0xABE2), (0xAC00, 0xD7A3), (0xD7B0, 0xD7C6),
     (0xD7CB, 0xD7FB), (0xF900, 0xFA6D), (0xFA70, 0xFAD9), (0xFB00, 0xFB06), (0xFB13, 0xFB17), (0xFB1D, 0xFB1D),
     (0xFB1F, 0xFB28), (0xFB2A, 0xFB36), (0xFB38, 0xFB3C), (0xFB3E, 0xFB3E), (0xFB40, 0xFB41), (0xFB43, 0xFB44),
     (0xFB46, 0xFBB1), (0xFBD3, 0xFD3D), (0xFD50, 0xFD8F), (0xFD92, 0xFDC7), (0xFDF0, 0xFDFB), (0xFE70, 0xFE74),
     (0xFE76, 0xFEFC), (0xFF21, 0xFF3A), (0xFF41, 0xFF5A), (0xFF66, 0xFFBE), (0xFFC2, 0xFFC7), (0xFFCA, 0xFFCF),
     (0xFFD2, 0xFFD7), (0xFFDA, 0xFFDC), (0x10000, 0x1000B), (0x1000D, 0x10026), (0x10028, 0x1003A), (0x1003C, 0x1003D),
     (0x1003F, 0x1004D), (0x10050, 0x1005D), (0x10080, 0x100FA), (0x10280, 0x1029C), (0x102A0, 0x102D0), (0x10300, 0x1031F),
     (0x1032D, 0x10340), (0x10342, 0x10349), (0x10350, 0x10375), (0x10380, 0x1039D), (0x103A0, 0x103C3), (0x103C8, 0x103CF),
     (0x10400, 0x1049D), (0x104B0, 0x104D3), (0x104D8, 0x104FB), (0x10500, 0x10527), (0x10530, 0x10563), (0x10570, 0x1057A),
     (0x1057C, 0x1058A), (0x1058C, 0x10592), (0x10594, 0x10595), (0x10597, 0x105A1), (0x105A3, 0x105B1), (0x105B3, 0x105B9),
     (0x105BB, 0x105BC), (0x10600, 0x10736), (0x10740, 0x10755), (0x10760, 0x10767), (0x10780, 0x10785), (0x10787, 0x107B0),
     (0x107B2, 0x107BA), (0x10800, 0x10805), (0x10808, 0x10808), (0x1080A, 0x10835), (0x10837, 0x10838), (0x1083C, 0x1083C),
     (0x1083F, 0x10855), (0x10860, 0x10876), (0x10880, 0x1089E), (0x108E0, 0x108F2), (0x108F4, 0x108F5), (0x10900, 0x10915),
     (0x10920, 0x10939), (0x10980, 0x109B7), (0x109BE, 0x109BF), (0x10A00, 0x10A00), (0x10A10, 0x10A13), (0x10A15, 0x10A17),
     (0x10A19, 0x10A35), (0x10A60, 0x10A7C), (0x10A80, 0x10A9C), (0x10AC0, 0x10AC7), (0x10AC9, 0x10AE4), (0x10B00, 0x10B35),
     (0x10B40, 0x10B55), (0x10B60, 0x10B72), (0x10B80, 0x10B91), (0x10C00, 0x10C48), (0x10C80, 0x10CB2), (0x10CC0, 0x10CF2),
     (0x10D00, 0x10D23), (0x10E80, 0x10EA9), (0x10EB0, 0x10EB1), (0x10F00, 0x10F1C), (0x10F27, 0x10F27), (0x10F30, 0x10F45),
     (0x10F70, 0x10F81), (0x10FB0, 0x10FC4), (0x10FE0, 0x10FF6), (0x11003, 0x11037), (0x11071, 0x11072), (0x11075, 0x11075),
     (0x11083, 0x110AF), (0x110D0, 0x110E8), (0x11103, 0x11126), (0x11144, 0x11144), (0x11147, 0x11147), (0x11150, 0x11172),
     (0x11176, 0x11176), (0x11183, 0x111B2), (0x111C1, 0x111C4), (0x111DA, 0x111DA), (0x111DC, 0x111DC), (0x11200, 0x11211),
     (0x11213, 0x1122B), (0x11280, 0x11286), (0x11288, 0x11288), (0x1128A, 0x1128D), (0x1128F, 0x1129D), (0x1129F, 0x112A8),
     (0x112B0, 0x112DE), (0x11305, 0x1130C), (0x1130F, 0x11310), (0x11313, 0x11328), (0x1132A, 0x11330), (0x11332, 0x11333),
     (0x11335, 0x11339), (0x1133D, 0x1133D), (0x11350, 0x11350), (0x1135D, 0x11361), (0x11400, 0x11434), (0x11447, 0x1144A),
     (0x1145F, 0x11461), (0x11480, 0x114AF), (0x114C4, 0x114C5), (0x114C7, 0x114C7), (0x11580, 0x115AE), (0x115D8, 0x115DB),
     (0x11600, 0x1162F), (0x11644, 0x11644), (0x11680, 0x116AA), (0x116B8, 0x116B8), (0x11700, 0x1171A), (0x11740, 0x11746),
     (0x11800, 0x1182B), (0x118A0, 0x118DF), (0x118FF, 0x11906), (0x11909, 0x11909), (0x1190C, 0x11913), (0x11915, 0x11916),
     (0x11918, 0x1192F), (0x1193F, 0x1193F), (0x11941, 0x11941), (0x119A0, 0x119A7), (0x119AA, 0x119D0), (0x119E1, 0x119E1),
     (0x119E3, 0x119E3), (0x11A00, 0x11A00), (0x11A0B, 0x11A32), (0x11A3A, 0x11A3A), (0x11A50, 0x11A50), (0x11A5C, 0x11A89),
     (0x11A9D, 0x11A9D), (0x11AB0, 0x11AF8), (0x11C00, 0x11C08), (0x11C0A, 0x11C2E), (0x11C40, 0x11C40), (0x11C72, 0x11C8F),
     (0x11D00, 0x11D06), (0x11D08, 0x11D09), (0x11D0B, 0x11D30), (0x11D46, 0x11D46), (0x11D60, 0x11D65), (0x11D67, 0x11D68),
     (0x11D6A, 0x11D89), (0x11D98, 0x11D98), (0x11EE0, 0x11EF2), (0x11FB0, 0x11FB0), (0x12000, 0x12399), (0x12480, 0x12543),
     (0x12F90, 0x12FF0), (0x13000, 0x1342E), (0x14400, 0x14646), (0x16800, 0x16A38), (0x16A40, 0x16A5E), (0x16A70, 0x16ABE),
     (0x16AD0, 0x16AED), (0x16B00, 0x16B2F), (0x16B40, 0x16B43), (0x16B63, 0x16B77), (0x16B7D, 0x16B8F), (0x16E40, 0x16E7F),
     (0x16F00, 0x16F4A), (0x16F50, 0x16F50), (0x16F93, 0x16F9F), (0x16FE0, 0x16FE1), (0x16FE3, 0x16FE3), (0x17000, 0x187F7),
     (0x18800, 0x18CD5), (0x18D00, 0x18D08), (0x1AFF0, 0x1AFF3), (0x1AFF5, 0x1AFFB), (0x1AFFD, 0x1AFFE), (0x1B000, 0x1B122),
     (0x1B150, 0x1B152), (0x1B164, 0x1B167), (0x1B170, 0x1B2FB), (0x1BC00, 0x1BC6A), (0x1BC70, 0x1BC7C), (0x1BC80, 0x1BC88),
     (0x1BC90, 0x1BC99), (0x1D400, 0x1D454), (0x1D456, 0x1D49C), (0x1D49E, 0x1D49F), (0x1D4A2, 0x1D4A2), (0x1D4A5, 0x1D4A6),
     (0x1D4A9, 0x1D4AC), (0x1D4AE, 0x1D4B9), (0x1D4BB, 0x1D4BB), (0x1D4BD, 0x1D4C3), (0x1D4C5, 0x1D505), (0x1D507, 0x1D50A),
     (0x1D50D, 0x1D514), (0x1D516, 0x1D51C), (0x1D51E, 0x1D539), (0x1D53B, 0x1D53E), (0x1D540, 0x1D544), (0x1D546, 0x1D546),
     (0x1D54A, 0x1D550), (0x1D552, 0x1D6A5), (0x1D6A8, 0x1D6C0), (0x1D6C2, 0x1D6DA), (0x1D6DC, 0x1D6FA), (0x1D6FC, 0x1D714),
     (0x1D716, 0x1D734), (0x1D736, 0x1D74E), (0x1D750, 0x1D76E), (0x1D770, 0x1D788), (0x1D78A, 0x1D7A8), (0x1D7AA, 0x1D7C2),
     (0x1D7C4, 0x1D7CB), (0x1DF00, 0x1DF1E), (0x1E100, 0x1E12C), (0x1E137, 0x1E13D), (0x1E14E, 0x1E14E), (0x1E290, 0x1E2AD),
     (0x1E2C0, 0x1E2EB), (0x1E7E0, 0x1E7E6), (0x1E7E8, 0x1E7EB), (0x1E7ED, 0x1E7EE), (0x1E7F0, 0x1E7FE), (0x1E800, 0x1E8C4),
     (0x1E900, 0x1E943), (0x1E94B, 0x1E94B), (0x1EE00, 0x1EE03), (0x1EE05, 0x1EE1F), (0x1EE21, 0x1EE22), (0x1EE24, 0x1EE24),
     (0x1EE27, 0x1EE27), (0x1EE29, 0x1EE32), (0x1EE34, 0x1EE37), (0x1EE39, 0x1EE39), (0x1EE3B, 0x1EE3B), (0x1EE42, 0x1EE42),
     (0x1EE47, 0x1EE47), (0x1EE49, 0x1EE49), (0x1EE4B, 0x1EE4B), (0x1EE4D, 0x1EE4F), (0x1EE51, 0x1EE52), (0x1EE54, 0x1EE54),
     (0x1EE57, 0x1EE57), (0x1EE59, 0x1EE59), (0x1EE5B, 0x1EE5B), (0x1EE5D, 0x1EE5D), (0x1EE5F, 0x1EE5F), (0x1EE61, 0x1EE62),
     (0x1EE64, 0x1EE64), (0x1EE67, 0x1EE6A), (0x1EE6C, 0x1EE72), (0x1EE74, 0x1EE77), (0x1EE79, 0x1EE7C), (0x1EE7E, 0x1EE7E),
     (0x1EE80, 0x1EE89), (0x1EE8B, 0x1EE9B), (0x1EEA1, 0x1EEA3), (0x1EEA5, 0x1EEA9), (0x1EEAB, 0x1EEBB), (0x20000, 0x2A6DF),
     (0x2A700, 0x2B738), (0x2B740, 0x2B81D), (0x2B820, 0x2CEA1), (0x2CEB0, 0x2EBE0), (0x2F800, 0x2FA1D), (0x30000, 0x3134A)]"

definition decimal_ranges :: "(nat \<times> nat) list" where
  "decimal_ranges =
    [(0x30, 0x39), (0x660, 0x669), (0x6F0, 0x6F9), (0x7C0, 0x7C9), (0x966, 0x96F), (0x9E6, 0x9EF),
     (0xA66, 0xA6F), (0xAE6, 0xAEF), (0xB66, 0xB6F), (0xBE6, 0xBEF), (0xC66, 0xC6F), (0xCE6, 0xCEF),
     (0xD66, 0xD6F), (0xDE6, 0xDEF), (0xE50, 0xE59), (0xED0, 0xED9), (0xF20, 0xF29), (0x1040, 0x1049),
     (0x1090, 0x1099), (0x17E0, 0x17E9), (0x1810, 0x1819), (0x1946, 0x194F), (0x19D0, 0x19D9), (0x1A80, 0x1A89),
     (0x1A90, 0x1A99), (0x1B50, 0x1B59), (0x1BB0, 0x1BB9), (0x1C40, 0x1C49), (0x1C50, 0x1C59), (0xA620, 0xA629),
     (0xA8D0, 0xA8D9), (0xA900, 0xA909), (0xA9D0, 0xA9D9), (0xA9F0, 0xA9F9), (0xAA50, 0xAA59), (0xABF0, 0xABF9),
     (0xFF10, 0xFF19), (0x104A0, 0x104A9), (0x10D30, 0x10D39), (0x11066, 0x1106F), (0x110F0, 0x110F9), (0x11136, 0x1113F),
     (0x111D0, 0x111D9), (0x112F0, 0x112F9), (0x11450, 0x11459), (0x114D0, 0x114D9), (0x11650, 0x11659), (0x116C0, 0x116C9),
     (0x11730, 0x11739), (0x118E0, 0x118E9), (0x11950, 0x11959), (0x11C50, 0x11C59), (0x11D50, 0x11D59), (0x11DA0, 0x11DA9),
     (0x16A60, 0x16A69), (0x16AC0, 0x16AC9), (0x16B50, 0x16B59), (0x1D7CE, 0x1D7FF), (0x1E140, 0x1E149), (0x1E2F0, 0x1E2F9),
     (0x1E950, 0x1E959), (0x1FBF0, 0x1FBF9)]"

definition digit_ranges :: "(nat \<times> nat) list" where
  "digit_ranges =
    [(0x30, 0x39), (0xB2, 0xB3), (0xB9, 0xB9), (0x660, 0x669), (0x6F0, 0x6F9), (0x7C0, 0x7C9),
     (0x966, 0x96F), (0x9E6, 0x9EF), (0xA66, 0xA6F), (0xAE6, 0xAEF), (0xB66, 0xB6F), (0xBE6, 0xBEF),
     (0xC66, 0xC6F), (0xCE6, 0xCEF), (0xD66, 0xD6F), (0xDE6, 0xDEF), (0xE50, 0xE59), (0xED0, 0xED9),
     (0xF20, 0xF29), (0x1040, 0x1049), (0x1090, 0x1099), (0x1369, 0x1371), (0x17E0, 0x17E9), (0x1810, 0x1819),
     (0x1946, 0x194F), (0x19D0, 0x19DA), (0x1A80, 0x1A89), (0x1A90, 0x1A99), (0x1B50, 0x1B59), (0x1BB0, 0x1BB9),
     (0x1C40, 0x1C49), (0x1C50, 0x1C59), (0x2070, 0x2070), (0x2074, 0x2079), (0x2080, 0x2089), (0x2460, 0x2468),
     (0x2474, 0x247C), (0x2488, 0x2490), (0x24EA, 0x24EA), (0x24F5, 0x24FD), (0x24FF, 0x24FF), (0x2776, 0x277E),
     (0x2780, 0x2788), (0x278A, 0x2792), (0xA620, 0xA629), (0xA8D0, 0xA8D9), (0xA900, 0xA909), (0xA9D0, 0xA9D9),
     (0xA9F0, 0xA9F9), (0xAA50, 0xAA59), (0xABF0, 0xABF9), (0xFF10, 0xFF19), (0x104A0, 0x104A9), (0x10A40, 0x10A43),
     (0x10D30, 0x10D39), (0x10E60, 0x10E68), (0x11052, 0x1105A), (0x11066, 0x1106F), (0x110F0, 0x110F9), (0x11136, 0x1113F),
     (0x111D0, 0x111D9), (0x112F0, 0x112F9), (0x11450, 0x11459), (0x114D0, 0x114D9), (0x11650, 0x11659), (0x116C0, 0x116C9),
     (0x11730, 0x11739), (0x118E0, 0x118E9), (0x11950, 0x11959), (0x11C50, 0x11C59), (0x11D50, 0x11D59), (0x11DA0, 0x11DA9),
     (0x16A60, 0x16A69), (0x16AC0, 0x16AC9), (0x16B50, 0x16B59), (0x1D7CE, 0x1D7FF), (0x1E140, 0x1E149), (0x1E2F0, 0x1E2F9),
     (0x1E950, 0x1E959), (0x1F100, 0x1F10A), (0x1FBF0, 0x1FBF9)]"

definition numeric_ranges :: "(nat \<times> nat) list" where
  "numeric_ranges =
    [(0x30, 0x39), (0xB2, 0xB3), (0xB9, 0xB9), (0xBC, 0xBE), (0x660, 0x669), (0x6F0, 0x6F9),
     (0x7C0, 0x7C9), (0x966, 0x96F), (0x9E6, 0x9EF), (0x9F4, 0x9F9), (0xA66, 0xA6F), (0xAE6, 0xAEF),
     (0xB66, 0xB6F), (0xB72, 0xB77), (0xBE6, 0xBF2), (0xC66, 0xC6F), (0xC78, 0xC7E), (0xCE6, 0xCEF),
     (0xD58, 0xD5E), (0xD66, 0xD78), (0xDE6, 0xDEF), (0xE50, 0xE59), (0xED0, 0xED9), (0xF20, 0xF33),
     (0x1040, 0x1049), (0x1090, 0x1099), (0x1369, 0x137C), (0x16EE, 0x16F0), (0x17E0, 0x17E9), (0x17F0, 0x17F9),
     (0x1810, 0x1819), (0x1946, 0x194F), (0x19D0, 0x19DA), (0x1A80, 0x1A89), (0x1A90, 0x1A99), (0x1B50, 0x1B59),
     (0x1BB0, 0x1BB9), (0x1C40, 0x1C49), (0x1C50, 0x1C59), (0x2070, 0x2070), (0x2074, 0x2079), (0x2080, 0x2089),
     (0x2150, 0x2182), (0x2185, 0x2189), (0x2460, 0x249B), (0x24EA, 0x24FF), (0x2776, 0x2793), (0x2CFD, 0x2CFD),
     (0x3007, 0x3007), (0x3021, 0x3029), (0x3038, 0x303A), (0x3192, 0x3195), (0x3220, 0x3229), (0x3248, 0x324F),
     (0x3251, 0x325F), (0x3280, 0x3289), (0x32B1, 0x32BF), (0x3405, 0x3405), (0x3483, 0x3483), (0x382A, 0x382A),
     (0x3B4D, 0x3B4D), (0x4E00, 0x4E00), (0x4E03, 0x4E03), (0x4E07, 0x4E07), (0x4E09, 0x4E09), (0x4E5D, 0x4E5D),
     (0x4E8C, 0x4E8C), (0x4E94, 0x4E94), (0x4E96, 0x4E96), (0x4EBF, 0x4EC0), (0x4EDF, 0x4EDF), (0x4EE8, 0x4EE8),
     (0x4F0D, 0x4F0D), (0x4F70, 0x4F70), (0x5104, 0x5104), (0x5146, 0x5146), (0x5169, 0x5169), (0x516B, 0x516B),
     (0x516D, 0x516D), (0x5341, 0x5341), (0x5343, 0x5345), (0x534C, 0x534C), (0x53C1, 0x53C4), (0x56DB, 0x56DB),
     (0x58F1, 0x58F1), (0x58F9, 0x58F9), (0x5E7A, 0x5E7A), (0x5EFE, 0x5EFF), (0x5F0C, 0x5F0E), (0x5F10, 0x5F10),
     (0x62FE, 0x62FE), (0x634C, 0x634C), (0x67D2, 0x67D2), (0x6F06, 0x6F06), (0x7396, 0x7396), (0x767E, 0x767E),
     (0x8086, 0x8086), (0x842C, 0x842C), (0x8CAE, 0x8CAE), (0x8CB3, 0x8CB3), (0x8D30, 0x8D30), (0x9621, 0x9621),
     (0x9646, 0x9646), (0x964C, 0x964C), (0x9678, 0x9678), (0x96F6, 0x96F6), (0xA620, 0xA629), (0xA6E6, 0xA6EF),
     (0xA830, 0xA835), (0xA8D0, 0xA8D9), (0xA900, 0xA909), (0xA9D0, 0xA9D9), (0xA9F0, 0xA9F9), (0xAA50, 0xAA59),
     (0xABF0, 0xABF9), (0xF96B, 0xF96B), (0xF973, 0xF973), (0xF978, 0xF978), (0xF9B2, 0xF9B2), (0xF9D1, 0xF9D1),
     (0xF9D3, 0xF9D3), (0xF9FD, 0xF9FD), (0xFF10, 0xFF19), (0x10107, 0x10133), (0x10140, 0x10178), (0x1018A, 0x1018B),
     (0x102E1, 0x102FB), (0x10320, 0x10323), (0x10341, 0x10341), (0x1034A, 0x1034A), (0x103D1, 0x103D5), (0x104A0, 0x104A9),
     (0x10858, 0x1085F), (0x10879, 0x1087F), (0x108A7, 0x108AF), (0x108FB, 0x108FF), (0x10916, 0x1091B), (0x109BC, 0x109BD),
     (0x109C0, 0x109CF), (0x109D2, 0x109FF), (0x10A40, 0x10A48), (0x10A7D, 0x10A7E), (0x10A9D, 0x10A9F), (0x10AEB, 0x10AEF),
     (0x10B58, 0x10B5F), (0x10B78, 0x10B7F), (0x10BA9, 0x10BAF), (0x10CFA, 0x10CFF), (0x10D30, 0x10D39), (0x10E60, 0x10E7E),
     (0x10F1D, 0x10F26), (0x10F51, 0x10F54), (0x10FC5, 0x10FCB), (0x11052, 0x1106F), (0x110F0, 0x110F9), (0x11136, 0x1113F),
     (0x111D0, 0x111D9), (0x111E1, 0x111F4), (0x112F0, 0x112F9), (0x11450, 0x11459), (0x114D0, 0x114D9), (0x11650, 0x11659),
     (0x116C0, 0x116C9), (0x11730, 0x1173B), (0x118E0, 0x118F2), (0x11950, 0x11959), (0x11C50, 0x11C6C), (0x11D50, 0x11D59),
     (0x11DA0, 0x11DA9), (0x11FC0, 0x11FD4), (0x12400, 0x1246E), (0x16A60, 0x16A69), (0x16AC0, 0x16AC9), (0x16B50, 0x16B59),
     (0x16B5B, 0x16B61), (0x16E80, 0x16E96), (0x1D2E0, 0x1D2F3), (0x1D360, 0x1D378), (0x1D7CE, 0x1D7FF), (0x1E140, 0x1E149),
     (0x1E2F0, 0x1E2F9), (0x1E8C7, 0x1E8CF), (0x1E950, 0x1E959), (0x1EC71, 0x1ECAB), (0x1ECAD, 0x1ECAF), (0x1ECB1, 0x1ECB4),
     (0x1ED01, 0x1ED2D), (0x1ED2F, 0x1ED3D), (0x1F100, 0x1F10C), (0x1FBF0, 0x1FBF9), (0x20001, 0x20001), (0x20064, 0x20064),
     (0x200E2, 0x200E2), (0x20121, 0x20121), (0x2092A, 0x2092A), (0x20983, 0x20983), (0x2098C, 0x2098C), (0x2099C, 0x2099C),
     (0x20AEA, 0x20AEA), (0x20AFD, 0x20AFD), (0x20B19, 0x20B19), (0x22390, 0x22390), (0x22998, 0x22998), (0x23B1B, 0x23B1B),
     (0x2626D, 0x2626D), (0x2F890, 0x2F890)]"

definition space_ranges :: "(nat \<times> nat) list" where
  "space_ranges =
    [(0x9, 0xD), (0x1C, 0x20), (0x85, 0x85), (0xA0, 0xA0), (0x1680, 0x1680), (0x2000, 0x200A),
     (0x2028, 0x2029), (0x202F, 0x202F), (0x205F, 0x205F), (0x3000, 0x3000)]"

definition isalpha :: "nat \<Rightarrow> bool" where
  "isalpha c = in_ranges alpha_ranges c"

definition isdecimal :: "nat \<Rightarrow> bool" where
  "isdecimal c = in_ranges decimal_ranges c"

definition isdigit :: "nat \<Rightarrow> bool" where
  "isdigit c = in_ranges digit_ranges c"

definition isnumeric :: "nat \<Rightarrow> bool" where
  "isnumeric c = in_ranges numeric_ranges c"

definition isspace :: "nat \<Rightarrow> bool" where
  "isspace c = in_ranges space_ranges c"

text \<open>
  \<^verbatim>\<open>str.isalnum\<close> is, in CPython, the disjunction of the four classes; \<^verbatim>\<open>\w\<close> in a
  \<^verbatim>\<open>str\<close> pattern is an alphanumeric character or the underscore.
\<close>

definition isalnum :: "nat \<Rightarrow> bool" where
  "isalnum c = (isalpha c \<or> isdecimal c \<or> isdigit c \<or> isnumeric c)"

definition isword :: "nat \<Rightarrow> bool" where
  "isword c = (isalnum c \<or> c = 0x5F)"

lemma in_ranges_iff: "in_ranges rs c \<longleftrightarrow> (\<exists>r \<in> set rs. fst r \<le> c \<and> c \<le> snd r)"
  by (induction rs) auto

lemma isalpha_ascii: "c < 128 \<Longrightarrow> isalpha c = (65 \<le> c \<and> c \<le> 90 \<or> 97 \<le> c \<and> c \<le> 122)"
  by (simp add: isalpha_def alpha_ranges_def)

lemma isdecimal_ascii: "c < 128 \<Longrightarrow> isdecimal c = (48 \<le> c \<and> c \<le> 57)"
  by (simp add: isdecimal_def decimal_ranges_def)

lemma isdigit_ascii: "c < 128 \<Longrightarrow> isdigit c = (48 \<le> c \<and> c \<le> 57)"
  by (simp add: isdigit_def digit_ranges_def)

lemma isnumeric_ascii: "c < 128 \<Longrightarrow> isnumeric c = (48 \<le> c \<and> c \<le> 57)"
  by (simp add: isnumeric_def numeric_ranges_def)

lemma isspace_ascii: "c < 128 \<Longrightarrow> isspace c = (9 \<le> c \<and> c \<le> 13 \<or> 28 \<le> c \<and> c \<le> 32)"
  by (simp add: isspace_def space_ranges_def)

lemma isword_ascii:
  "c < 128 \<Longrightarrow> isword c = (48 \<le> c \<and> c \<le> 57 \<or> 65 \<le> c \<and> c \<le> 90 \<or> c = 95 \<or> 97 \<le> c \<and> c \<le> 122)"
  by (auto simp: isword_def isalnum_def isalpha_ascii isdecimal_ascii isdigit_ascii isnumeric_ascii)

lemma isdecimal_isword: "isdecimal c \<Longrightarrow> isword c"
  by (simp add: isword_def isalnum_def)

section \<open>Digit normalisation\<close>

text \<open>
  \<^verbatim>\<open>normalize_digits\<close> of \<^verbatim>\<open>process_logic.py\<close>. The dictionary \<open>numeral_map\<close> has the
  Arabic-Indic digits U+0660..U+0669 and the Extended Arabic-Indic digits U+06F0..U+06F9
  as keys; \<^verbatim>\<open>str.translate\<close> replaces a character that is a key by the key's value and
  leaves every other character as it is.
\<close>

definition numeral_map :: "(nat \<times> ustring) list" where
  "numeral_map =
    [(0x660, u ''0''), (0x661, u ''1''), (0x662, u ''2''), (0x663, u ''3''), (0x664, u ''4''), (0x665, u ''5''), (0x666, u ''6''), (0x667, u ''7''), (0x668, u ''8''), (0x669, u ''9''),
     (0x6F0, u ''0''), (0x6F1, u ''1''), (0x6F2, u ''2''), (0x6F3, u ''3''), (0x6F4, u ''4''), (0x6F5, u ''5''), (0x6F6, u ''6''), (0x6F7, u ''7''), (0x6F8, u ''8''), (0x6F9, u ''9'')]"

definition translate :: "(nat \<times> ustring) list \<Rightarrow> ustring \<Rightarrow> ustring" where
  "translate table text =
     concat (map (\<lambda>c. case map_of table c of None \<Rightarrow> [c] | Some r \<Rightarrow> r) text)"

definition normalize_digits :: "ustring \<Rightarrow> ustring" where
  "normalize_digits text = (if text = [] then [] else translate numeral_map text)"

text \<open>The copy of \<^verbatim>\<open>normalize_digits\<close> in \<^verbatim>\<open>process.py\<close>, with its own dictionary.\<close>

definition numeral_map_process :: "(nat \<times> ustring) list" where
  "numeral_map_process =
    [(0x660, u ''0''), (0x661, u ''1''), (0x662, u ''2''), (0x663, u ''3''), (0x664, u ''4''), (0x665, u ''5''), (0x666, u ''6''), (0x667, u ''7''), (0x668, u ''8''), (0x669, u ''9''),
     (0x6F0, u ''0''), (0x6F1, u ''1''), (0x6F2, u ''2''), (0x6F3, u ''3''), (0x6F4, u ''4''), (0x6F5, u ''5''), (0x6F6, u ''6''), (0x6F7, u ''7''), (0x6F8, u ''8''), (0x6F9, u ''9'')]"

definition normalize_digits_process :: "ustring \<Rightarrow> ustring" where
  "normalize_digits_process text = (if text = [] then [] else translate numeral_map_process text)"

section \<open>The regular expressions of the \<^verbatim>\<open>re\<close> module\<close>

text \<open>
  The patterns of the program use character sets, \<^verbatim>\<open>\d\<close>, \<^verbatim>\<open>\s\<close>, \<^verbatim>\<open>\b\<close>,
  concatenation, the greedy counted repetition \<^verbatim>\<open>{m,n}\<close> (\<^verbatim>\<open>?\<close> is \<^verbatim>\<open>{0,1}\<close>) and
  the greedy \<^verbatim>\<open>+\<close>. A capturing group changes nothing in what is matched; in both
  patterns that read \<^verbatim>\<open>group(1)\<close> the group holds everything but the zero-width
  \<^verbatim>\<open>\b\<close>, so \<^verbatim>\<open>group(1)\<close> is the whole match.

  A position in the subject string is a cursor: the character before the position (if
  there is one; \<^verbatim>\<open>\b\<close> reads it) and the text from the position on. \<open>ends r p\<close> lists
  the cursors where a match of \<open>r\<close> that starts at \<open>p\<close> can end, in the order in which the
  backtracking matcher tries them; the match it reports is the first. \<^verbatim>\<open>+\<close> is applied
  to single characters only, so it iterates at most as often as there are characters left.
\<close>

datatype cclass = Chr nat | Range nat nat | Digit | Space

fun cmatch :: "cclass \<Rightarrow> nat \<Rightarrow> bool" where
  "cmatch (Chr a) c = (c = a)"
| "cmatch (Range lo hi) c = (lo \<le> c \<and> c \<le> hi)"
| "cmatch Digit c = isdecimal c"
| "cmatch Space c = isspace c"

datatype regex =
    Set "cclass list"
  | Boundary
  | Then regex regex
  | Rep nat nat regex
  | Many1 regex

type_synonym cursor = "nat option \<times> ustring"

definition at_boundary :: "nat option \<Rightarrow> ustring \<Rightarrow> bool" where
  "at_boundary prev rest =
     ((case prev of None \<Rightarrow> False | Some c \<Rightarrow> isword c) \<noteq>
      (case rest of [] \<Rightarrow> False | c # _ \<Rightarrow> isword c))"

fun rep_ends :: "(cursor \<Rightarrow> cursor list) \<Rightarrow> nat \<Rightarrow> nat \<Rightarrow> cursor \<Rightarrow> cursor list" where
  "rep_ends f m 0 p = (if m = 0 then [p] else [])"
| "rep_ends f m (Suc n) p =
     concat (map (rep_ends f (m - 1) n) (f p)) @ (if m = 0 then [p] else [])"

lemma rep_ends_cong [fundef_cong]:
  "(\<And>q. f q = g q) \<Longrightarrow> m = m' \<Longrightarrow> n = n' \<Longrightarrow> p = p' \<Longrightarrow> rep_ends f m n p = rep_ends g m' n' p'"
proof -
  assume "\<And>q. f q = g q"
  then have "f = g" by auto
  moreover assume "m = m'" "n = n'" "p = p'"
  ultimately show ?thesis by simp
qed

fun ends :: "regex \<Rightarrow> cursor \<Rightarrow> cursor list" where
  "ends (Set cs) (prev, rest) =
     (case rest of
        [] \<Rightarrow> []
      | c # rest' \<Rightarrow> if list_ex (\<lambda>k. cmatch k c) cs then [(Some c, rest')] else [])"
| "ends Boundary (prev, rest) = (if at_boundary prev rest then [(prev, rest)] else [])"
| "ends (Then a b) p = concat (map (ends b) (ends a p))"
| "ends (Rep m n r) p = rep_ends (ends r) m n p"
| "ends (Many1 r) p = rep_ends (ends r) 1 (length (snd p)) p"

text \<open>
  \<^verbatim>\<open>re.search\<close> tries the positions from left to right and reports the first match at
  the first position that has one: the text it skipped, the text matched, and the cursor
  after the match.
\<close>

definition matched :: "ustring \<Rightarrow> cursor \<Rightarrow> ustring" where
  "matched rest e = take (length rest - length (snd e)) rest"

fun search_from :: "regex \<Rightarrow> nat option \<Rightarrow> ustring \<Rightarrow> (ustring \<times> ustring \<times> cursor) option" where
  "search_from r prev [] =
     (case ends r (prev, []) of [] \<Rightarrow> None | e # _ \<Rightarrow> Some ([], [], e))"
| "search_from r prev (c # cs) =
     (case ends r (prev, c # cs) of
        e # _ \<Rightarrow> Some ([], matched (c # cs) e, e)
      | [] \<Rightarrow>
         (case search_from r (Some c) cs of
            None \<Rightarrow> None
          | Some (gap, m, e) \<Rightarrow> Some (c # gap, m, e)))"

definition re_search :: "regex \<Rightarrow> ustring \<Rightarrow> ustring option" where
  "re_search r s = (case search_from r None s of None \<Rightarrow> None | Some (gap, m, e) \<Rightarrow> Some m)"

definition re_fullmatch :: "regex \<Rightarrow> ustring \<Rightarrow> bool" where
  "re_fullmatch r s = list_ex (\<lambda>e. snd e = []) (ends r (None, s))"

lemma rep_ends_suffix:
  "(\<And>a b. b \<in> set (f a) \<Longrightarrow> \<exists>m. snd a = m @ snd b) \<Longrightarrow> e \<in> set (rep_ends f m n p)
    \<Longrightarrow> \<exists>w. snd p = w @ snd e"
proof (induction n arbitrary: m p)
  case 0
  then show ?case by (auto split: if_splits)
next
  case (Suc n)
  from Suc.prems(2) consider
      q where "q \<in> set (f p)" "e \<in> set (rep_ends f (m - 1) n q)"
    | "e = p"
    by (auto split: if_splits)
  then show ?case
  proof cases
    case 1
    from Suc.IH[OF Suc.prems(1) 1(2)] obtain w where "snd q = w @ snd e" by blast
    moreover from Suc.prems(1)[OF 1(1)] obtain w' where "snd p = w' @ snd q" by blast
    ultimately show ?thesis by simp
  next
    case 2
    then show ?thesis by simp
  qed
qed

lemma ends_suffix: "e \<in> set (ends r p) \<Longrightarrow> \<exists>w. snd p = w @ snd e"
proof (induction r arbitrary: p e)
  case (Set cs)
  then show ?case by (cases p) (auto split: if_splits list.splits)
next
  case Boundary
  then show ?case by (cases p) (auto split: if_splits)
next
  case (Then a b)
  from Then.prems obtain q where q: "q \<in> set (ends a p)" "e \<in> set (ends b q)" by auto
  from Then.IH(1)[OF q(1)] Then.IH(2)[OF q(2)] show ?case by auto
next
  case (Rep m n r)
  then show ?case using rep_ends_suffix[of "ends r" e m n p] by auto
next
  case (Many1 r)
  then show ?case using rep_ends_suffix[of "ends r" e 1 "length (snd p)" p] by auto
qed

lemma matched_append: "e \<in> set (ends r (prev, rest)) \<Longrightarrow> rest = matched rest e @ snd e"
proof -
  assume "e \<in> set (ends r (prev, rest))"
  from ends_suffix[OF this] obtain w where "rest = w @ snd e" by auto
  then show ?thesis by (simp add: matched_def)
qed

lemma search_from_append:
  "search_from r prev rest = Some (gap, m, e) \<Longrightarrow> rest = gap @ m @ snd e"
proof (induction rest arbitrary: prev gap)
  case Nil
  then obtain es where "ends r (prev, []) = e # es" "gap = []" "m = []"
    by (auto split: list.splits)
  with ends_suffix[of e r "(prev, [])"] show ?case by auto
next
  case (Cons c cs)
  show ?case
  proof (cases "ends r (prev, c # cs)")
    case Nil
    with Cons.prems obtain gap' where g: "search_from r (Some c) cs = Some (gap', m, e)" "gap = c # gap'"
      by (auto split: option.splits)
    from Cons.IH[OF g(1)] g(2) show ?thesis by simp
  next
    case (Cons e' es)
    with Cons.prems have "gap = []" "m = matched (c # cs) e" "e' = e" by auto
    with Cons matched_append[of e r prev "c # cs"] show ?thesis by simp
  qed
qed

text \<open>
  \<^verbatim>\<open>re.sub\<close> and \<^verbatim>\<open>re.findall\<close> walk over the successive non-overlapping matches; the
  subject falls into the texts between the matches and the matches themselves. After a
  match the search resumes where the match ended; after an empty match it resumes one
  character later, and that character is text between matches. (No pattern of the program
  matches the empty string.)
\<close>

datatype piece = Gap ustring | Hit ustring

function pieces :: "regex \<Rightarrow> nat option \<Rightarrow> ustring \<Rightarrow> piece list" where
  "pieces r prev rest =
     (case search_from r prev rest of
        None \<Rightarrow> [Gap rest]
      | Some (gap, m, (prev', rest')) \<Rightarrow>
          Gap gap # Hit m #
            (if m = []
             then (case rest' of [] \<Rightarrow> [] | c # cs \<Rightarrow> Gap [c] # pieces r (Some c) cs)
             else pieces r prev' rest'))"
  by pat_completeness auto
termination
proof (relation "measure (\<lambda>(r, prev, rest). length rest)")
  show "wf (measure (\<lambda>(r, prev, rest). length rest))" by simp
next
  fix r prev rest x2 gap y m z prev' rest' c cs
  assume "search_from r prev rest = Some x2" "(gap, y) = x2" "(m, z) = y" "(prev', rest') = z"
    "rest' = c # cs"
  then have "search_from r prev rest = Some (gap, m, (prev', c # cs))" by simp
  from search_from_append[OF this]
  show "((r, Some c, cs), r, prev, rest) \<in> measure (\<lambda>(r, prev, rest). length rest)" by simp
next
  fix r prev rest x2 gap y m z prev' rest'
  assume "search_from r prev rest = Some x2" "(gap, y) = x2" "(m, z) = y" "(prev', rest') = z"
    "m \<noteq> []"
  then have "search_from r prev rest = Some (gap, m, (prev', rest'))" by simp
  from search_from_append[OF this] \<open>m \<noteq> []\<close>
  show "((r, prev', rest'), r, prev, rest) \<in> measure (\<lambda>(r, prev, rest). length rest)" by simp
qed

fun sub_piece :: "ustring \<Rightarrow> piece \<Rightarrow> ustring" where
  "sub_piece repl (Gap g) = g"
| "sub_piece repl (Hit m) = repl"

definition re_sub :: "regex \<Rightarrow> ustring \<Rightarrow> ustring \<Rightarrow> ustring" where
  "re_sub r repl s = concat (map (sub_piece repl) (pieces r None s))"

fun hits :: "piece list \<Rightarrow> ustring list" where
  "hits [] = []"
| "hits (Gap g # ps) = hits ps"
| "hits (Hit m # ps) = m # hits ps"

definition re_findall :: "regex \<Rightarrow> ustring \<Rightarrow> ustring list" where
  "re_findall r s = hits (pieces r None s)"

declare pieces.simps [simp del]

section \<open>Extraction of the national identity number\<close>

text \<open>
  The four patterns of \<^verbatim>\<open>extract_national_id\<close>:
  \<^verbatim>\<open>\b\d{4}/\d{1,2}(/\d{1,2})?\b\<close>, \<^verbatim>\<open>\b([23]\d{13})\b\<close>, \<^verbatim>\<open>\d+\<close> and \<^verbatim>\<open>([23]\d{13})\<close>.
\<close>

definition date_pattern :: regex where
  "date_pattern =
     Then Boundary
       (Then (Rep 4 4 (Set [Digit]))
         (Then (Set [Chr 0x2F])
           (Then (Rep 1 2 (Set [Digit]))
             (Then (Rep 0 1 (Then (Set [Chr 0x2F]) (Rep 1 2 (Set [Digit]))))
               Boundary))))"

definition id_pattern :: regex where
  "id_pattern = Then (Set [Chr 0x32, Chr 0x33]) (Rep 13 13 (Set [Digit]))"

definition bounded_id_pattern :: regex where
  "bounded_id_pattern = Then Boundary (Then id_pattern Boundary)"

definition digits_pattern :: regex where
  "digits_pattern = Many1 (Set [Digit])"

text \<open>\<^verbatim>\<open>str.startswith\<close> with a tuple of prefixes.\<close>

definition startswith :: "ustring \<Rightarrow> ustring list \<Rightarrow> bool" where
  "startswith s prefixes = list_ex (\<lambda>p. take (length p) s = p) prefixes"

text \<open>
  The loop of the second strategy, over the list of digit runs: the first two
  neighbours of seven characters each whose concatenation starts with 2 or 3.
\<close>

fun adjacent_sevens :: "ustring list \<Rightarrow> ustring option" where
  "adjacent_sevens (a # b # rest) =
     (if length a = 7 \<and> length b = 7 \<and> startswith (a @ b) [u ''2'', u ''3'']
      then Some (a @ b)
      else adjacent_sevens (b # rest))"
| "adjacent_sevens _ = None"

text \<open>
  The loop of the third strategy: the first run longer than 14 characters in which the
  unanchored pattern is found.
\<close>

fun embedded_id :: "ustring list \<Rightarrow> ustring option" where
  "embedded_id [] = None"
| "embedded_id (num_seq # rest) =
     (if length num_seq > 14
      then (case re_search id_pattern num_seq of
              Some m \<Rightarrow> Some m
            | None \<Rightarrow> embedded_id rest)
      else embedded_id rest)"

definition extract_national_id :: "ustring \<Rightarrow> ustring option" where
  "extract_national_id text =
     (if text = [] then None
      else
        let processed_text = normalize_digits text;
            cleaned_text = re_sub date_pattern [] processed_text
        in case re_search bounded_id_pattern cleaned_text of
             Some m \<Rightarrow> Some m
           | None \<Rightarrow>
              (case adjacent_sevens (re_findall digits_pattern cleaned_text) of
                 Some national_id \<Rightarrow> Some national_id
               | None \<Rightarrow> embedded_id (re_findall digits_pattern processed_text)))"

lemmas ascii_classes = isword_ascii isdecimal_ascii isspace_ascii isdigit_ascii

lemma rep_ends_numeral:
  "rep_ends f m (numeral k) p =
     concat (map (rep_ends f (m - 1) (pred_numeral k)) (f p)) @ (if m = 0 then [p] else [])"
  by (simp add: numeral_eq_Suc)

lemma rep_ends_1:
  "rep_ends f m 1 p = concat (map (rep_ends f (m - 1) 0) (f p)) @ (if m = 0 then [p] else [])"
  using rep_ends.simps(2)[of f m 0 p] by simp

lemmas re_eval = re_sub_def re_search_def re_findall_def matched_def pieces.simps
  at_boundary_def ascii_classes rep_ends_numeral rep_ends_1 u_def

text \<open>
  The copy of \<^verbatim>\<open>extract_national_id\<close> in \<^verbatim>\<open>process.py\<close>: the same statements with the
  same four pattern literals and the same two loops, on that file's \<^verbatim>\<open>normalize_digits\<close>;
  it also prints which strategy succeeded, which is not part of the value returned.
\<close>

definition extract_national_id_process :: "ustring \<Rightarrow> ustring option" where
  "extract_national_id_process text =
     (if text = [] then None
      else
        let processed_text = normalize_digits_process text;
            cleaned_text = re_sub date_pattern [] processed_text
        in case re_search bounded_id_pattern cleaned_text of
             Some m \<Rightarrow> Some m
           | None \<Rightarrow>
              (case adjacent_sevens (re_findall digits_pattern cleaned_text) of
                 Some national_id \<Rightarrow> Some national_id
               | None \<Rightarrow> embedded_id (re_findall digits_pattern processed_text)))"

section \<open>Properties of the digit normalisation\<close>

definition mapped_digit :: "nat \<Rightarrow> bool" where
  "mapped_digit c = (0x660 \<le> c \<and> c \<le> 0x669 \<or> 0x6F0 \<le> c \<and> c \<le> 0x6F9)"

definition western_digit :: "nat \<Rightarrow> bool" where
  "western_digit c = (0x30 \<le> c \<and> c \<le> 0x39)"

lemma numeral_map_None: "map_of numeral_map c = None \<longleftrightarrow> \<not> mapped_digit c"
proof -
  have "map_of numeral_map c = None \<longleftrightarrow> c \<notin> fst ` set numeral_map"
    by (simp add: map_of_eq_None_iff)
  also have "\<dots> \<longleftrightarrow> \<not> mapped_digit c"
    unfolding numeral_map_def mapped_digit_def by (simp; arith)
  finally show ?thesis .
qed

lemma numeral_map_Some:
  "map_of numeral_map c = Some r \<Longrightarrow> \<exists>d. r = [d] \<and> western_digit d \<and> mapped_digit c"
  by (auto simp: numeral_map_def mapped_digit_def western_digit_def u_def split: if_splits)

definition norm_char :: "nat \<Rightarrow> nat" where
  "norm_char c = (case map_of numeral_map c of None \<Rightarrow> c | Some r \<Rightarrow> hd r)"

lemma translate_numeral_map: "translate numeral_map s = map norm_char s"
proof (induction s)
  case Nil
  then show ?case by (simp add: translate_def)
next
  case (Cons c s)
  have "(case map_of numeral_map c of None \<Rightarrow> [c] | Some r \<Rightarrow> r) = [norm_char c]"
    using numeral_map_Some[of c] by (auto simp: norm_char_def split: option.splits)
  with Cons show ?case by (simp add: translate_def)
qed

lemma normalize_digits_map: "normalize_digits s = map norm_char s"
  by (simp add: normalize_digits_def translate_numeral_map)

lemma norm_char_unmapped: "\<not> mapped_digit c \<Longrightarrow> norm_char c = c"
  using numeral_map_None[of c] by (simp add: norm_char_def)

lemma norm_char_mapped: "mapped_digit c \<Longrightarrow> western_digit (norm_char c)"
  using numeral_map_None[of c] numeral_map_Some[of c]
  by (auto simp: norm_char_def split: option.splits)

lemma western_not_mapped: "western_digit c \<Longrightarrow> \<not> mapped_digit c"
  by (auto simp: western_digit_def mapped_digit_def)

lemma norm_char_idem: "norm_char (norm_char c) = norm_char c"
proof (cases "mapped_digit c")
  case True
  then have "\<not> mapped_digit (norm_char c)"
    using norm_char_mapped western_not_mapped by blast
  then show ?thesis by (rule norm_char_unmapped)
next
  case False
  then show ?thesis by (simp add: norm_char_unmapped)
qed

text \<open>
  C7. \<^verbatim>\<open>normalize_digits\<close> returns a string for every string and is idempotent; a
  character outside the two mapped numeral sets passes through unchanged, at its place;
  the empty string is mapped to the empty string.
\<close>

theorem normalize_digits_idempotent:
  "normalize_digits (normalize_digits s) = normalize_digits s
   \<and> length (normalize_digits s) = length s
   \<and> (\<forall>i < length s. \<not> mapped_digit (s ! i) \<longrightarrow> normalize_digits s ! i = s ! i)
   \<and> normalize_digits [] = []"
  by (simp add: normalize_digits_map norm_char_idem norm_char_unmapped)

theorem normalize_digits_idempotent_witness:
  "normalize_digits (normalize_digits [0x661, 0x41, 0x6F2]) = normalize_digits [0x661, 0x41, 0x6F2]
   \<and> normalize_digits [0x661, 0x41, 0x6F2] = [0x31, 0x41, 0x32]
   \<and> \<not> mapped_digit 0x41
   \<and> normalize_digits [0x661, 0x41, 0x6F2] ! 1 = 0x41"
proof -
  have a: "normalize_digits [0x661, 0x41, 0x6F2] = [0x31, 0x41, 0x32]"
    by (simp add: normalize_digits_def translate_def numeral_map_def u_def)
  have b: "\<not> mapped_digit ([0x661, 0x41, 0x6F2] ! 1)" by (simp add: mapped_digit_def)
  from normalize_digits_idempotent[of "[0x661, 0x41, 0x6F2]"] b
  have "normalize_digits (normalize_digits [0x661, 0x41, 0x6F2]) = normalize_digits [0x661, 0x41, 0x6F2]
    \<and> normalize_digits [0x661, 0x41, 0x6F2] ! 1 = [0x661, 0x41, 0x6F2] ! 1"
    by simp
  with a b show ?thesis by simp
qed

text \<open>
  C10. The two copies of the extraction engine agree: \<^verbatim>\<open>extract_national_id\<close> and
  \<^verbatim>\<open>normalize_digits\<close> of \<^verbatim>\<open>process.py\<close> return what those of \<^verbatim>\<open>process_logic.py\<close>
  return, on every string.
\<close>

theorem process_copies_equivalent:
  "extract_national_id_process s = extract_national_id s
   \<and> normalize_digits_process s = normalize_digits s"
proof -
  have "numeral_map_process = numeral_map"
    by (simp add: numeral_map_process_def numeral_map_def)
  then have "normalize_digits_process = normalize_digits"
    by (simp add: fun_eq_iff normalize_digits_process_def normalize_digits_def)
  then show ?thesis
    by (simp add: extract_national_id_process_def extract_national_id_def)
qed

section \<open>What the matcher computes on the patterns of the program\<close>

text \<open>
  \<open>advance p k\<close> is the cursor \<open>k\<close> characters after \<open>p\<close>. A repetition of a single
  character class ends after \<open>n\<close>, \<open>n - 1\<close>, ..., \<open>m\<close> characters, where \<open>n\<close> is bounded by
  the number of characters of the class that follow the cursor.
\<close>

definition advance :: "cursor \<Rightarrow> nat \<Rightarrow> cursor" where
  "advance p k = (if k = 0 then fst p else Some (snd p ! (k - 1)), drop k (snd p))"

definition run :: "cclass list \<Rightarrow> ustring \<Rightarrow> nat" where
  "run cs rest = length (takeWhile (\<lambda>c. list_ex (\<lambda>k. cmatch k c) cs) rest)"

lemma advance_0 [simp]: "advance p 0 = p"
  by (simp add: advance_def)

lemma advance_Suc_Cons: "advance (prev, c # r) (Suc k) = advance (Some c, r) k"
  by (cases k) (simp_all add: advance_def)

lemma rev_upt_0: "rev [0..<Suc (Suc N)] = rev (map Suc [0..<Suc N]) @ [0]"
proof -
  have "[0..<Suc (Suc N)] = 0 # [Suc 0..<Suc (Suc N)]"
    by (rule upt_conv_Cons) simp
  also have "[Suc 0..<Suc (Suc N)] = map Suc [0..<Suc N]"
    by (rule map_Suc_upt[symmetric])
  finally show ?thesis by (simp only: rev.simps)
qed

lemma rep_ends_atom:
  "rep_ends (ends (Set cs)) m n (prev, rest) =
     map (advance (prev, rest)) (rev [m..<Suc (min n (run cs rest))])"
proof (induction n arbitrary: m prev rest)
  case 0
  then show ?case by (cases m) (simp_all add: run_def)
next
  case (Suc n)
  show ?case
  proof (cases "rest \<noteq> [] \<and> list_ex (\<lambda>k. cmatch k (hd rest)) cs")
    case False
    then have "run cs rest = 0" by (cases rest) (auto simp: run_def)
    moreover from False have "ends (Set cs) (prev, rest) = []" by (cases rest) auto
    ultimately show ?thesis by (cases m) simp_all
  next
    case True
    then obtain c r where rest: "rest = c # r" and c: "list_ex (\<lambda>k. cmatch k c) cs"
      by (cases rest) auto
    then have run: "run cs rest = Suc (run cs r)" by (simp add: run_def)
    have f: "ends (Set cs) (prev, rest) = [(Some c, r)]" using rest c by simp
    let ?N = "min n (run cs r)"
    have ih: "rep_ends (ends (Set cs)) k n (Some c, r) =
        map (advance (Some c, r)) (rev [k..<Suc ?N])" for k
      by (rule Suc.IH)
    have adv: "map (advance (prev, rest)) (map Suc xs) = map (advance (Some c, r)) xs" for xs
      by (simp add: rest advance_Suc_Cons o_def)
    show ?thesis
    proof (cases m)
      case 0
      have "rep_ends (ends (Set cs)) m (Suc n) (prev, rest) =
          rep_ends (ends (Set cs)) 0 n (Some c, r) @ [(prev, rest)]"
        using f 0 by simp
      also have "\<dots> = map (advance (Some c, r)) (rev [0..<Suc ?N]) @ [(prev, rest)]"
        by (simp only: ih)
      also have "\<dots> = map (advance (prev, rest)) (rev (map Suc [0..<Suc ?N]) @ [0])"
        by (simp only: rev_map adv map_append list.map advance_0)
      also have "\<dots> = map (advance (prev, rest)) (rev [0..<Suc (Suc ?N)])"
        by (simp only: rev_upt_0)
      finally show ?thesis using 0 run by simp
    next
      case (Suc m')
      have "rep_ends (ends (Set cs)) m (Suc n) (prev, rest) =
          rep_ends (ends (Set cs)) m' n (Some c, r)"
        using f Suc by simp
      also have "\<dots> = map (advance (Some c, r)) (rev [m'..<Suc ?N])"
        by (simp only: ih)
      also have "\<dots> = map (advance (prev, rest)) (rev (map Suc [m'..<Suc ?N]))"
        by (simp only: rev_map adv)
      also have "\<dots> = map (advance (prev, rest)) (rev [Suc m'..<Suc (Suc ?N)])"
        by (simp only: map_Suc_upt)
      finally show ?thesis using Suc run by simp
    qed
  qed
qed

lemma run_le: "run cs rest \<le> length rest"
  by (simp add: run_def length_takeWhile_le)

lemma rep_exact_atom:
  "rep_ends (ends (Set cs)) k k p = (if k \<le> run cs (snd p) then [advance p k] else [])"
  by (cases p) (simp add: rep_ends_atom min_def)

lemma many1_atom:
  "ends (Many1 (Set cs)) p = map (advance p) (rev [1..<Suc (run cs (snd p))])"
  using run_le[of cs "snd p"] by (cases p) (simp add: rep_ends_atom min_def)

lemma run_ge_iff:
  "k \<le> run cs rest \<longleftrightarrow> k \<le> length rest \<and> list_all (\<lambda>c. list_ex (\<lambda>k. cmatch k c) cs) (take k rest)"
proof (induction rest arbitrary: k)
  case Nil
  then show ?case by (simp add: run_def)
next
  case (Cons c rest)
  show ?case
  proof (cases k)
    case 0
    then show ?thesis by simp
  next
    case (Suc k')
    with Cons[of k'] show ?thesis by (simp add: run_def)
  qed
qed

lemma run_Digit_ge: "k \<le> run [Digit] rest \<longleftrightarrow> k \<le> length rest \<and> list_all isdecimal (take k rest)"
  by (simp add: run_ge_iff)

lemma snd_advance [simp]: "snd (advance p k) = drop k (snd p)"
  by (simp add: advance_def)

lemma fst_advance: "0 < k \<Longrightarrow> k \<le> length (snd p) \<Longrightarrow> fst (advance p k) = Some (last (take k (snd p)))"
  by (cases k) (simp_all add: advance_def last_conv_nth take_Suc_conv_app_nth)

text \<open>
  The shape of an identity number: 14 characters, each a decimal digit in the sense of
  \<^verbatim>\<open>\d\<close>, the first one the character 2 or the character 3.
\<close>

definition id_shaped :: "ustring \<Rightarrow> bool" where
  "id_shaped v = (length v = 14 \<and> (hd v = 0x32 \<or> hd v = 0x33) \<and> list_all isdecimal v)"

lemma ends_id_pattern:
  "ends id_pattern (prev, rest) =
     (if id_shaped (take 14 rest) then [advance (prev, rest) 14] else [])"
proof (cases rest)
  case Nil
  then show ?thesis by (simp add: id_pattern_def id_shaped_def)
next
  case (Cons c r)
  have d: "isdecimal 0x32" "isdecimal 0x33" by (simp_all add: isdecimal_ascii)
  have a: "advance (Some c, r) 13 = advance (prev, c # r) 14"
    using advance_Suc_Cons[of prev c r 13] by simp
  have t: "take 14 (c # r) = c # take 13 r" by (simp add: take_Cons')
  show ?thesis
    using d by (auto simp: Cons id_pattern_def id_shaped_def rep_exact_atom run_Digit_ge a t)
qed

lemma ends_bounded_id_pattern:
  "ends bounded_id_pattern (prev, rest) =
     (if at_boundary prev rest \<and> id_shaped (take 14 rest)
         \<and> at_boundary (fst (advance (prev, rest) 14)) (drop 14 rest)
      then [advance (prev, rest) 14] else [])"
proof -
  have "ends Boundary (advance (prev, rest) 14) =
      (if at_boundary (fst (advance (prev, rest) 14)) (drop 14 rest) then [advance (prev, rest) 14] else [])"
    by (cases "advance (prev, rest) 14") (simp add: advance_def)
  then show ?thesis
    by (simp add: bounded_id_pattern_def ends_id_pattern)
qed

text \<open>The cursor at the end of \<open>gap\<close>, when the cursor before \<open>gap\<close> has \<open>prev\<close>.\<close>

definition prev_after :: "nat option \<Rightarrow> ustring \<Rightarrow> nat option" where
  "prev_after prev gap = (if gap = [] then prev else Some (last gap))"

lemma prev_after_Cons [simp]: "prev_after prev (c # gap) = prev_after (Some c) gap"
  by (simp add: prev_after_def)

lemma prev_after_Nil [simp]: "prev_after prev [] = prev"
  by (simp add: prev_after_def)

lemma search_from_Some:
  "search_from r prev rest = Some (gap, m, e) \<Longrightarrow>
     rest = gap @ m @ snd e
     \<and> (\<exists>es. ends r (prev_after prev gap, m @ snd e) = e # es)
     \<and> (\<forall>k < length gap. ends r (prev_after prev (take k gap), drop k rest) = [])"
proof (induction rest arbitrary: prev gap)
  case Nil
  then obtain es where "ends r (prev, []) = e # es" "gap = []" "m = []"
    by (auto split: list.splits)
  with ends_suffix[of e r "(prev, [])"] show ?case by auto
next
  case (Cons c cs)
  show ?case
  proof (cases "ends r (prev, c # cs)")
    case Nil
    with Cons.prems obtain gap' where g: "search_from r (Some c) cs = Some (gap', m, e)" "gap = c # gap'"
      by (auto split: option.splits)
    from Cons.IH[OF g(1)] have ih:
      "cs = gap' @ m @ snd e" "\<exists>es. ends r (prev_after (Some c) gap', m @ snd e) = e # es"
      "\<forall>k < length gap'. ends r (prev_after (Some c) (take k gap'), drop k cs) = []"
      by auto
    have "ends r (prev_after prev (take k gap), drop k (c # cs)) = []" if "k < length gap" for k
    proof (cases k)
      case 0
      then show ?thesis using Nil by simp
    next
      case (Suc k')
      with that g(2) have "k' < length gap'" by simp
      with ih(3) Suc g(2) show ?thesis by simp
    qed
    with ih(1,2) g(2) show ?thesis by simp
  next
    case (Cons e' es)
    with Cons.prems have g: "gap = []" "m = matched (c # cs) e" "e' = e" by auto
    from matched_append[of e r prev "c # cs"] Cons g have 1: "m @ snd e = c # cs" by simp
    show ?thesis using Cons g(3) by (simp add: g(1) 1)
  qed
qed

lemma search_from_None:
  "search_from r prev rest = None \<Longrightarrow> k \<le> length rest \<Longrightarrow>
     ends r (prev_after prev (take k rest), drop k rest) = []"
proof (induction rest arbitrary: prev k)
  case Nil
  then show ?case by (auto split: list.splits)
next
  case (Cons c cs)
  from Cons.prems(1) have n: "ends r (prev, c # cs) = []" "search_from r (Some c) cs = None"
    by (auto split: list.splits option.splits)
  show ?case
  proof (cases k)
    case 0
    then show ?thesis using n by simp
  next
    case (Suc k')
    with Cons.prems(2) Cons.IH[OF n(2), of k'] show ?thesis by simp
  qed
qed

lemma search_from_first:
  "ends r (prev_after prev gap, rest) = e # es \<Longrightarrow>
   (\<forall>k < length gap. ends r (prev_after prev (take k gap), drop k (gap @ rest)) = []) \<Longrightarrow>
   search_from r prev (gap @ rest) = Some (gap, matched rest e, e)"
proof (induction gap arbitrary: prev)
  case Nil
  then show ?case by (cases rest) (simp_all add: matched_def)
next
  case (Cons c gap)
  from Cons.prems(2)[rule_format, of 0] have n: "ends r (prev, c # gap @ rest) = []" by simp
  have "\<forall>k < length gap. ends r (prev_after (Some c) (take k gap), drop k (gap @ rest)) = []"
  proof (intro allI impI)
    fix k assume "k < length gap"
    with Cons.prems(2)[rule_format, of "Suc k"] show
      "ends r (prev_after (Some c) (take k gap), drop k (gap @ rest)) = []" by simp
  qed
  with Cons.IH[of "Some c"] Cons.prems(1)
  have "search_from r (Some c) (gap @ rest) = Some (gap, matched rest e, e)" by simp
  with n show ?case by simp
qed

text \<open>The walk over the matches, one position at a time.\<close>

lemma pieces_Nil: "ends r (prev, []) = [] \<Longrightarrow> pieces r prev [] = [Gap []]"
  by (simp add: pieces.simps)

lemma pieces_hit:
  "ends r (prev, rest) = e # es \<Longrightarrow>
   pieces r prev rest =
     Gap [] # Hit (matched rest e) #
       (if matched rest e = []
        then (case snd e of [] \<Rightarrow> [] | c # cs \<Rightarrow> Gap [c] # pieces r (Some c) cs)
        else pieces r (fst e) (snd e))"
proof -
  assume a: "ends r (prev, rest) = e # es"
  have "search_from r prev rest = Some ([], matched rest e, e)"
    using a by (cases rest) (simp_all add: matched_def)
  then show ?thesis
    by (subst pieces.simps) (simp add: case_prod_beta)
qed

fun gap_cons :: "nat \<Rightarrow> piece list \<Rightarrow> piece list" where
  "gap_cons c (Gap g # ps) = Gap (c # g) # ps"
| "gap_cons c ps = Gap [c] # ps"

lemma pieces_skip:
  "ends r (prev, c # cs) = [] \<Longrightarrow> pieces r prev (c # cs) = gap_cons c (pieces r (Some c) cs)"
  by (subst pieces.simps, subst (2) pieces.simps) (simp split: option.splits)

lemma pieces_starts_Gap: "\<exists>g ps. pieces r prev rest = Gap g # ps"
  by (subst pieces.simps) (simp split: option.splits)

lemma hits_gap_cons [simp]: "hits (gap_cons c ps) = hits ps"
  by (induction c ps rule: gap_cons.induct) simp_all

lemma sub_gap_cons:
  "ps = Gap g # ps' \<Longrightarrow> concat (map (sub_piece repl) (gap_cons c ps)) = c # concat (map (sub_piece repl) ps)"
  by simp

lemma sub_skip:
  "ends r (prev, c # cs) = [] \<Longrightarrow>
   concat (map (sub_piece repl) (pieces r prev (c # cs))) =
     c # concat (map (sub_piece repl) (pieces r (Some c) cs))"
  using pieces_starts_Gap[of r "Some c" cs] by (auto simp: pieces_skip)

text \<open>The maximal runs of decimal digits of a string, from left to right.\<close>

function digit_runs :: "ustring \<Rightarrow> ustring list" where
  "digit_runs [] = []"
| "digit_runs (c # cs) =
     (if isdecimal c then takeWhile isdecimal (c # cs) # digit_runs (dropWhile isdecimal cs)
      else digit_runs cs)"
  by pat_completeness auto
termination
proof (relation "measure length")
  show "wf (measure length)" by simp
next
  fix c :: nat and cs :: ustring
  have "length (dropWhile isdecimal cs) \<le> length cs" by (rule length_dropWhile_le)
  then show "(dropWhile isdecimal cs, c # cs) \<in> measure length" by simp
next
  fix c :: nat and cs :: ustring
  show "(cs, c # cs) \<in> measure length" by simp
qed

lemma ends_digits_pattern:
  "ends digits_pattern (prev, rest) =
     map (advance (prev, rest)) (rev [1..<Suc (length (takeWhile isdecimal rest))])"
  using many1_atom[of "[Digit]" "(prev, rest)"] by (simp add: digits_pattern_def run_def)

lemma ends_digits_Nil: "rest = [] \<or> \<not> isdecimal (hd rest) \<Longrightarrow> ends digits_pattern (prev, rest) = []"
  by (cases rest) (auto simp: ends_digits_pattern)

lemma ends_digits_Cons:
  assumes "isdecimal c"
  shows "\<exists>e es. ends digits_pattern (prev, c # cs) = e # es
           \<and> matched (c # cs) e = takeWhile isdecimal (c # cs)
           \<and> snd e = dropWhile isdecimal cs"
proof -
  let ?n = "length (takeWhile isdecimal cs)"
  have "rev [1..<Suc (Suc ?n)] = Suc ?n # rev [1..<Suc ?n]" by simp
  then have e: "ends digits_pattern (prev, c # cs) =
      advance (prev, c # cs) (Suc ?n) # map (advance (prev, c # cs)) (rev [1..<Suc ?n])"
    using assms by (simp add: ends_digits_pattern)
  have n: "?n \<le> length cs" by (rule length_takeWhile_le)
  have d: "drop ?n cs = dropWhile isdecimal cs"
    by (rule dropWhile_eq_drop[symmetric])
  have t: "take ?n cs = takeWhile isdecimal cs"
    by (rule takeWhile_eq_take[symmetric])
  have "matched (c # cs) (advance (prev, c # cs) (Suc ?n)) = c # take ?n cs"
    using n by (simp add: matched_def)
  with e d t assms show ?thesis by simp
qed

lemma findall_digits: "hits (pieces digits_pattern prev rest) = digit_runs rest"
proof (induction rest arbitrary: prev rule: digit_runs.induct)
  case 1
  then show ?case by (simp add: pieces_Nil ends_digits_Nil)
next
  case (2 c cs)
  show ?case
  proof (cases "isdecimal c")
    case True
    from ends_digits_Cons[OF True, of prev cs] obtain e es where
      e: "ends digits_pattern (prev, c # cs) = e # es"
         "matched (c # cs) e = takeWhile isdecimal (c # cs)" "snd e = dropWhile isdecimal cs"
      by blast
    have "hits (pieces digits_pattern prev (c # cs)) =
        takeWhile isdecimal (c # cs) # hits (pieces digits_pattern (fst e) (dropWhile isdecimal cs))"
      using True by (simp add: pieces_hit[OF e(1)] e(2,3))
    with 2(1)[OF True, of "fst e"] True show ?thesis by simp
  next
    case False
    then have "ends digits_pattern (prev, c # cs) = []" by (simp add: ends_digits_Nil)
    with 2(2)[OF False, of "Some c"] False show ?thesis by (simp add: pieces_skip)
  qed
qed

lemma re_findall_digits: "re_findall digits_pattern s = digit_runs s"
  by (simp add: re_findall_def findall_digits)

lemma digit_runs_elem:
  "x \<in> set (digit_runs s) \<Longrightarrow> x \<noteq> [] \<and> list_all isdecimal x \<and> set x \<subseteq> set s"
proof (induction s rule: digit_runs.induct)
  case 1
  then show ?case by simp
next
  case (2 c cs)
  show ?case
  proof (cases "isdecimal c")
    case True
    with 2(3) consider "x = takeWhile isdecimal (c # cs)" | "x \<in> set (digit_runs (dropWhile isdecimal cs))"
      by auto
    then show ?thesis
    proof cases
      case 1
      have "list_all isdecimal (takeWhile isdecimal (c # cs))"
        unfolding list_all_iff by (auto dest: set_takeWhileD)
      moreover have "set (takeWhile isdecimal (c # cs)) \<subseteq> set (c # cs)"
        by (auto dest: set_takeWhileD)
      ultimately show ?thesis using 1 True by simp
    next
      case 2
      from "2.IH"(1)[OF True 2] set_dropWhileD[of _ isdecimal cs] show ?thesis by auto
    qed
  next
    case False
    with 2(3) have "x \<in> set (digit_runs cs)" by simp
    from "2.IH"(2)[OF False this] show ?thesis by auto
  qed
qed

lemma id_shaped_take:
  assumes "id_shaped (take 14 (m @ rest'))" "rest' = drop 14 (m @ rest')"
  shows "id_shaped m"
proof -
  from assms(1) have "length (take 14 (m @ rest')) = 14" by (simp add: id_shaped_def)
  then have l: "14 \<le> length m + length rest'" by simp
  have "length rest' = length (drop 14 (m @ rest'))"
    by (rule arg_cong[OF assms(2), of length])
  then have "length rest' = length m + length rest' - 14" by (simp only: length_drop length_append)
  with l have "length m = 14" by arith
  then have "take 14 (m @ rest') = m" by simp
  with assms(1) show ?thesis by simp
qed

lemma search_id_pattern:
  "search_from id_pattern prev rest = Some (gap, m, e) \<Longrightarrow> id_shaped m \<and> set m \<subseteq> set rest"
proof -
  assume a: "search_from id_pattern prev rest = Some (gap, m, e)"
  from search_from_Some[OF a] obtain es where
    r: "rest = gap @ m @ snd e" and
    e: "ends id_pattern (prev_after prev gap, m @ snd e) = e # es" by blast
  from e have s: "id_shaped (take 14 (m @ snd e))" and
      "e = advance (prev_after prev gap, m @ snd e) 14"
    by (auto simp: ends_id_pattern split: if_splits)
  then have "snd e = drop 14 (m @ snd e)" by (metis snd_advance snd_conv)
  from id_shaped_take[OF s this] r show ?thesis by auto
qed

lemma search_bounded_id_pattern:
  "search_from bounded_id_pattern prev rest = Some (gap, m, e) \<Longrightarrow> id_shaped m \<and> set m \<subseteq> set rest"
proof -
  assume a: "search_from bounded_id_pattern prev rest = Some (gap, m, e)"
  from search_from_Some[OF a] obtain es where
    r: "rest = gap @ m @ snd e" and
    e: "ends bounded_id_pattern (prev_after prev gap, m @ snd e) = e # es" by blast
  from e have s: "id_shaped (take 14 (m @ snd e))" and
      "e = advance (prev_after prev gap, m @ snd e) 14"
    by (auto simp: ends_bounded_id_pattern split: if_splits)
  then have "snd e = drop 14 (m @ snd e)" by (metis snd_advance snd_conv)
  from id_shaped_take[OF s this] r show ?thesis by auto
qed

lemma re_search_id_shaped:
  "re_search id_pattern s = Some m \<Longrightarrow> id_shaped m \<and> set m \<subseteq> set s"
  "re_search bounded_id_pattern s = Some m \<Longrightarrow> id_shaped m \<and> set m \<subseteq> set s"
  using search_id_pattern[of None s] search_bounded_id_pattern[of None s]
  by (auto simp: re_search_def split: option.splits)

lemma startswith_23: "startswith v [u ''2'', u ''3''] \<longleftrightarrow> v \<noteq> [] \<and> (hd v = 0x32 \<or> hd v = 0x33)"
  by (cases v) (auto simp: startswith_def u_def)

lemma adjacent_sevens_Some:
  "adjacent_sevens xs = Some v \<Longrightarrow>
     \<exists>a b. a \<in> set xs \<and> b \<in> set xs \<and> v = a @ b \<and> length a = 7 \<and> length b = 7
       \<and> (hd v = 0x32 \<or> hd v = 0x33)"
proof (induction xs rule: adjacent_sevens.induct)
  case (1 a b rest)
  show ?case
  proof (cases "length a = 7 \<and> length b = 7 \<and> startswith (a @ b) [u ''2'', u ''3'']")
    case True
    with 1(2) have "v = a @ b" by simp
    with True show ?thesis by (auto simp: startswith_23 simp del: hd_append2)
  next
    case False
    with 1(2) have "adjacent_sevens (b # rest) = Some v" by auto
    from 1(1)[OF False this] show ?thesis by auto
  qed
qed simp_all

lemma embedded_id_Some:
  "embedded_id xs = Some v \<Longrightarrow> \<exists>x \<in> set xs. 14 < length x \<and> re_search id_pattern x = Some v"
  by (induction xs) (auto split: if_splits option.splits)

fun flat_piece :: "piece \<Rightarrow> ustring" where
  "flat_piece (Gap g) = g"
| "flat_piece (Hit m) = m"

lemma pieces_concat: "concat (map flat_piece (pieces r prev rest)) = rest"
proof (induction "length rest" arbitrary: prev rest rule: less_induct)
  case less
  show ?case
  proof (cases "search_from r prev rest")
    case None
    then show ?thesis by (subst pieces.simps) simp
  next
    case (Some x)
    then obtain gap m prev' rest' where s: "search_from r prev rest = Some (gap, m, (prev', rest'))"
      by (cases x) auto
    from search_from_append[OF s] have r: "rest = gap @ m @ rest'" by simp
    show ?thesis
    proof (cases "m = []")
      case True
      show ?thesis
      proof (cases rest')
        case Nil
        with True r s show ?thesis by (subst pieces.simps) simp
      next
        case (Cons c cs)
        with r have "length cs < length rest" by simp
        from less[OF this, of "Some c"] True r s Cons show ?thesis
          by (subst pieces.simps) simp
      qed
    next
      case False
      with r have "length rest' < length rest" by simp
      from less[OF this, of prev'] False r s show ?thesis
        by (subst pieces.simps) simp
    qed
  qed
qed

lemma set_sub_piece: "set (concat (map (sub_piece []) ps)) \<subseteq> set (concat (map flat_piece ps))"
proof (induction ps)
  case Nil
  then show ?case by simp
next
  case (Cons p ps)
  then show ?case by (cases p) auto
qed

lemma set_re_sub: "set (re_sub r [] s) \<subseteq> set s"
  using set_sub_piece[of "pieces r None s"] by (simp add: re_sub_def pieces_concat)

lemma extract_national_id_cases:
  assumes "extract_national_id text = Some v"
  shows "id_shaped v \<and> set v \<subseteq> set (normalize_digits text)"
proof -
  let ?p = "normalize_digits text"
  let ?c = "re_sub date_pattern [] ?p"
  from assms have ne: "text \<noteq> []" by (auto simp: extract_national_id_def)
  have sub: "set ?c \<subseteq> set ?p" by (rule set_re_sub)
  show ?thesis
  proof (cases "re_search bounded_id_pattern ?c")
    case (Some m)
    with assms ne have "v = m" by (simp add: extract_national_id_def Let_def)
    with re_search_id_shaped(2)[OF Some] sub show ?thesis by auto
  next
    case None
    note A = this
    show ?thesis
    proof (cases "adjacent_sevens (digit_runs ?c)")
      case (Some w)
      with assms ne A have vw: "v = w" by (simp add: extract_national_id_def Let_def re_findall_digits)
      from adjacent_sevens_Some[OF Some] obtain a b where
        ab: "a \<in> set (digit_runs ?c)" "b \<in> set (digit_runs ?c)" "w = a @ b"
            "length a = 7" "length b = 7" "hd w = 0x32 \<or> hd w = 0x33" by blast
      from digit_runs_elem[OF ab(1)] digit_runs_elem[OF ab(2)] ab(3-6) vw sub
      show ?thesis by (auto simp: id_shaped_def)
    next
      case None
      with assms ne A have "embedded_id (digit_runs ?p) = Some v"
        by (simp add: extract_national_id_def Let_def re_findall_digits)
      from embedded_id_Some[OF this] obtain x where
        x: "x \<in> set (digit_runs ?p)" "re_search id_pattern x = Some v" by blast
      from re_search_id_shaped(1)[OF x(2)] digit_runs_elem[OF x(1)] show ?thesis by auto
    qed
  qed
qed

text \<open>
  C1, as the code has it. A value returned by \<^verbatim>\<open>extract_national_id\<close> has exactly 14
  characters, each a decimal digit in the sense of \<^verbatim>\<open>\d\<close> (any Unicode decimal digit),
  and its first character is the Western digit 2 or 3, whichever strategy produced it.
  The digits are all Western when every decimal digit of the input is a Western digit
  or belongs to one of the two numeral sets that \<^verbatim>\<open>normalize_digits\<close> maps.
\<close>

theorem extract_national_id_shape:
  "extract_national_id text = Some v \<Longrightarrow>
     id_shaped v
     \<and> ((\<forall>c \<in> set text. isdecimal c \<longrightarrow> western_digit c \<or> mapped_digit c)
          \<longrightarrow> list_all western_digit v)"
proof -
  assume a: "extract_national_id text = Some v"
  from extract_national_id_cases[OF a] have s: "id_shaped v" and
    sub: "set v \<subseteq> set (normalize_digits text)" by auto
  have "list_all western_digit v"
    if h: "\<forall>c \<in> set text. isdecimal c \<longrightarrow> western_digit c \<or> mapped_digit c"
  proof -
    have "western_digit d" if d: "d \<in> set v" for d
    proof -
      from d sub obtain c where c: "c \<in> set text" "d = norm_char c"
        by (auto simp: normalize_digits_map)
      from s d have dd: "isdecimal d" by (auto simp: id_shaped_def list_all_iff)
      show ?thesis
      proof (cases "mapped_digit c")
        case True
        then show ?thesis using c(2) norm_char_mapped by simp
      next
        case False
        then have "d = c" using c(2) norm_char_unmapped by simp
        with dd h c(1) False show ?thesis by auto
      qed
    qed
    then show ?thesis by (simp add: list_all_iff)
  qed
  with s show ?thesis by blast
qed

lemmas id_eval = extract_national_id_def normalize_digits_def translate_def numeral_map_def
  date_pattern_def bounded_id_pattern_def id_pattern_def digits_pattern_def startswith_def re_eval

theorem extract_national_id_shape_witness:
  "extract_national_id (u ''ID 29901011234567'') = Some (u ''29901011234567'')
   \<and> id_shaped (u ''29901011234567'')
   \<and> list_all western_digit (u ''29901011234567'')"
proof -
  have e: "extract_national_id (u ''ID 29901011234567'') = Some (u ''29901011234567'')"
    by (simp add: id_eval)
  have h: "\<forall>c \<in> set (u ''ID 29901011234567''). isdecimal c \<longrightarrow> western_digit c \<or> mapped_digit c"
    by (simp add: u_def isdecimal_ascii western_digit_def)
  from extract_national_id_shape[OF e] h e show ?thesis by blast
qed

text \<open>
  The claim as stated fails: the Devanagari digit one (U+0967) is a decimal digit for
  \<^verbatim>\<open>\d\<close> and is not touched by \<^verbatim>\<open>normalize_digits\<close>, so the value returned here is
  not a string of Western digits.
\<close>

lemma isdecimal_devanagari: "isdecimal 0x967"
  by (simp add: isdecimal_def decimal_ranges_def)

theorem extract_national_id_western_counterexample:
  "extract_national_id (u ''2990101123456'' @ [0x967]) = Some (u ''2990101123456'' @ [0x967])
   \<and> \<not> list_all western_digit (u ''2990101123456'' @ [0x967])"
proof -
  have w: "isword 0x967" using isdecimal_devanagari by (rule isdecimal_isword)
  show ?thesis
    using isdecimal_devanagari w by (simp add: id_eval western_digit_def)
qed

section \<open>The third strategy\<close>

text \<open>
  In the words of the specification: within a digit run, the first embedded 14-digit
  substring that starts with 2 or 3; over a list of runs, the first run that has one.
\<close>

fun first_window :: "ustring \<Rightarrow> ustring option" where
  "first_window [] = None"
| "first_window (c # cs) =
     (if id_shaped (take 14 (c # cs)) then Some (take 14 (c # cs)) else first_window cs)"

fun first_embedded :: "ustring list \<Rightarrow> ustring option" where
  "first_embedded [] = None"
| "first_embedded (r # rs) = (case first_window r of Some v \<Rightarrow> Some v | None \<Rightarrow> first_embedded rs)"

lemma matched_advance: "k \<le> length rest \<Longrightarrow> matched rest (advance (prev, rest) k) = take k rest"
  by (simp add: matched_def)

lemma id_shaped_length: "id_shaped (take 14 rest) \<Longrightarrow> 14 \<le> length rest"
  by (auto simp: id_shaped_def)

lemma search_id_first_window:
  "(case search_from id_pattern prev rest of None \<Rightarrow> None | Some (gap, m, e) \<Rightarrow> Some m)
     = first_window rest"
proof (induction rest arbitrary: prev)
  case Nil
  then show ?case by (simp add: ends_id_pattern id_shaped_def)
next
  case (Cons c cs)
  show ?case
  proof (cases "id_shaped (take 14 (c # cs))")
    case True
    from id_shaped_length[OF True] have "matched (c # cs) (advance (prev, c # cs) 14) = take 14 (c # cs)"
      by (rule matched_advance)
    with True show ?thesis by (simp add: ends_id_pattern del: take_Cons_numeral)
  next
    case False
    with Cons[of "Some c"] show ?thesis
      by (auto simp add: ends_id_pattern split: option.splits simp del: take_Cons_numeral)
  qed
qed

lemma re_search_id_first_window: "re_search id_pattern x = first_window x"
  using search_id_first_window[of None x] by (simp add: re_search_def)

lemma embedded_id_first_embedded:
  "embedded_id xs = first_embedded (filter (\<lambda>r. 14 < length r) xs)"
  by (induction xs) (simp_all add: re_search_id_first_window split: option.splits)

lemma first_embedded_Nil: "first_embedded [] = None"
  by simp

text \<open>
  C6. When the first two strategies find nothing, \<^verbatim>\<open>extract_national_id\<close> returns what
  the third finds: it reads the maximal digit runs of the normalized text (not of the
  date-stripped text), keeps those longer than 14 digits, and returns the first embedded
  14-digit substring starting with 2 or 3 of the first run that has one. When no run is
  longer than 14 digits it returns nothing.
\<close>

theorem third_strategy_embedded:
  "text \<noteq> [] \<Longrightarrow>
   re_search bounded_id_pattern (re_sub date_pattern [] (normalize_digits text)) = None \<Longrightarrow>
   adjacent_sevens (re_findall digits_pattern (re_sub date_pattern [] (normalize_digits text))) = None \<Longrightarrow>
     extract_national_id text =
       first_embedded (filter (\<lambda>r. 14 < length r) (digit_runs (normalize_digits text)))
     \<and> ((\<forall>r \<in> set (digit_runs (normalize_digits text)). length r \<le> 14)
          \<longrightarrow> extract_national_id text = None)"
proof -
  assume a: "text \<noteq> []"
    "re_search bounded_id_pattern (re_sub date_pattern [] (normalize_digits text)) = None"
    "adjacent_sevens (re_findall digits_pattern (re_sub date_pattern [] (normalize_digits text))) = None"
  let ?runs = "digit_runs (normalize_digits text)"
  from a have e: "extract_national_id text = first_embedded (filter (\<lambda>r. 14 < length r) ?runs)"
    by (simp add: extract_national_id_def Let_def re_findall_digits embedded_id_first_embedded)
  have "filter (\<lambda>r. 14 < length r) ?runs = []" if "\<forall>r \<in> set ?runs. length r \<le> 14"
    using that by (auto simp: filter_empty_conv)
  with e show ?thesis by simp
qed

theorem third_strategy_embedded_witness:
  "extract_national_id (u ''1234567890123456'') = Some (u ''23456789012345'')
   \<and> first_embedded (filter (\<lambda>r. 14 < length r) (digit_runs (normalize_digits (u ''1234567890123456''))))
       = Some (u ''23456789012345'')
   \<and> digit_runs (normalize_digits (u ''No 123 here'')) = [u ''123'']
   \<and> extract_national_id (u ''No 123 here'') = None"
proof -
  have n1: "u ''1234567890123456'' \<noteq> []" by (simp add: u_def)
  have a1: "re_search bounded_id_pattern (re_sub date_pattern [] (normalize_digits (u ''1234567890123456''))) = None"
    by (simp add: id_eval)
  have b1: "adjacent_sevens (re_findall digits_pattern (re_sub date_pattern [] (normalize_digits (u ''1234567890123456'')))) = None"
    by (simp add: id_eval)
  have v1: "extract_national_id (u ''1234567890123456'') = Some (u ''23456789012345'')"
    by (simp add: id_eval)
  have n2: "u ''No 123 here'' \<noteq> []" by (simp add: u_def)
  have a2: "re_search bounded_id_pattern (re_sub date_pattern [] (normalize_digits (u ''No 123 here''))) = None"
    by (simp add: id_eval)
  have b2: "adjacent_sevens (re_findall digits_pattern (re_sub date_pattern [] (normalize_digits (u ''No 123 here'')))) = None"
    by (simp add: id_eval)
  have r2: "digit_runs (normalize_digits (u ''No 123 here'')) = [u ''123'']"
    by (simp add: normalize_digits_def translate_def numeral_map_def u_def isdecimal_ascii)
  have l: "length (u ''123'') \<le> 14" by (simp add: u_def)
  from third_strategy_embedded[OF n1 a1 b1] v1
  have c1: "first_embedded (filter (\<lambda>r. 14 < length r) (digit_runs (normalize_digits (u ''1234567890123456''))))
       = Some (u ''23456789012345'')" by simp
  from third_strategy_embedded[OF n2 a2 b2] r2 l
  have c2: "extract_national_id (u ''No 123 here'') = None" by simp
  from v1 c1 r2 c2 show ?thesis by simp
qed

section \<open>Files, the OCR service and orientation correction\<close>

text \<open>
  The world that the image functions act on: the files (a path either has content or
  does not exist) and the log of the calls made to the OCR service, oldest first.
\<close>

type_synonym bytes = "nat list"

datatype ocr_call = Text_detection bytes | Document_text_detection bytes

record world =
  files :: "ustring \<rightharpoonup> bytes"
  calls :: "ocr_call list"

text \<open>
  What the program does not compute itself is given by the environment: the responses
  of the OCR service to an image (\<open>None\<close>: the call raises an exception), the value of
  \<^verbatim>\<open>atan2\<close>, and the image library's decode, rotate and re-encode of a file content
  (\<open>None\<close>: the library raises). A response carries an error message (empty: no error)
  and the text annotations; a vertex is a pair \<open>(x, y)\<close>. The rounding of the floating
  point product is not modelled.
\<close>

type_synonym vertex = "int \<times> int"

record annotation =
  description :: ustring
  vertices :: "vertex list"

record response =
  error_message :: ustring
  text_annotations :: "annotation list"

record env =
  text_detection :: "bytes \<Rightarrow> response option"
  document_text_detection :: "bytes \<Rightarrow> response option"
  atan2 :: "int \<Rightarrow> int \<Rightarrow> real"
  rotate :: "bytes \<Rightarrow> nat \<Rightarrow> bytes option"

text \<open>
  \<^verbatim>\<open>str.replace(old, new)\<close> for a non-empty \<open>old\<close> (the program passes \<^verbatim>\<open>'.jpg'\<close> and
  \<^verbatim>\<open>'.png'\<close>): the non-overlapping occurrences of \<open>old\<close>, from the left.
\<close>

function str_replace :: "ustring \<Rightarrow> ustring \<Rightarrow> ustring \<Rightarrow> ustring" where
  "str_replace [] old new = []"
| "str_replace (c # cs) old new =
     (if old \<noteq> [] \<and> take (length old) (c # cs) = old
      then new @ str_replace (drop (length old) (c # cs)) old new
      else c # str_replace cs old new)"
  by pat_completeness auto
termination
  by (relation "measure (\<lambda>(s, old, new). length s)") auto

definition log_call :: "ocr_call \<Rightarrow> world \<Rightarrow> world" where
  "log_call c w = w\<lparr>calls := calls w @ [c]\<rparr>"

text \<open>
  \<^verbatim>\<open>detect_rotation_and_correct_image\<close> of \<^verbatim>\<open>process_logic.py\<close>. Every exception inside
  its \<^verbatim>\<open>try\<close> (the file cannot be opened, the service call raises, there is no second
  vertex, the image library raises) ends in the handler, which returns the path given.
\<close>

definition detect_rotation_and_correct_image :: "env \<Rightarrow> world \<Rightarrow> ustring \<Rightarrow> ustring \<times> world" where
  "detect_rotation_and_correct_image client w image_path =
     (case files w image_path of
        None \<Rightarrow> (image_path, w)
      | Some content \<Rightarrow>
          if content = [] then (image_path, w)
          else
            let w1 = log_call (Text_detection content) w in
            (case text_detection client content of
               None \<Rightarrow> (image_path, w1)
             | Some resp \<Rightarrow>
                 (case text_annotations resp of
                    [] \<Rightarrow> (image_path, w1)
                  | a # _ \<Rightarrow>
                      (case vertices a of
                         [] \<Rightarrow> (image_path, w1)
                       | [v0] \<Rightarrow> (image_path, w1)
                       | v0 # v1 # _ \<Rightarrow>
                           let dy = snd v1 - snd v0;
                               dx = fst v1 - fst v0;
                               angle = (180 / 3.14159) * atan2 client dy dx
                           in if \<bar>angle\<bar> > 45
                              then (case rotate client content (if angle > 0 then 270 else 90) of
                                      None \<Rightarrow> (image_path, w1)
                                    | Some img \<Rightarrow>
                                        let corrected_path =
                                              str_replace
                                                (str_replace image_path (u ''.jpg'') (u ''_corrected.jpg''))
                                                (u ''.png'') (u ''_corrected.png'')
                                        in (corrected_path,
                                            w1\<lparr>files := (files w1)(corrected_path \<mapsto> img)\<rparr>))
                              else (image_path, w1)))))"

text \<open>
  The copy in \<^verbatim>\<open>process.py\<close>: no test of the content before the service is called, the
  angle from \<^verbatim>\<open>np.arctan2(dy, dx) * 180 / np.pi\<close>, and only \<^verbatim>\<open>'.jpg'\<close> is replaced.
\<close>

definition detect_rotation_and_correct_image_process :: "env \<Rightarrow> world \<Rightarrow> ustring \<Rightarrow> ustring \<times> world" where
  "detect_rotation_and_correct_image_process client w image_path =
     (case files w image_path of
        None \<Rightarrow> (image_path, w)
      | Some content \<Rightarrow>
          let w1 = log_call (Text_detection content) w in
          (case text_detection client content of
             None \<Rightarrow> (image_path, w1)
           | Some resp \<Rightarrow>
               (case text_annotations resp of
                  [] \<Rightarrow> (image_path, w1)
                | a # _ \<Rightarrow>
                    (case vertices a of
                       [] \<Rightarrow> (image_path, w1)
                     | [v0] \<Rightarrow> (image_path, w1)
                     | v0 # v1 # _ \<Rightarrow>
                         let dy = snd v1 - snd v0;
                             dx = fst v1 - fst v0;
                             angle = atan2 client dy dx * 180 / 3.141592653589793
                         in if \<bar>angle\<bar> > 45
                            then (case rotate client content (if angle > 0 then 270 else 90) of
                                    None \<Rightarrow> (image_path, w1)
                                  | Some img \<Rightarrow>
                                      let corrected_path =
                                            str_replace image_path (u ''.jpg'') (u ''_corrected.jpg'')
                                      in (corrected_path,
                                          w1\<lparr>files := (files w1)(corrected_path \<mapsto> img)\<rparr>))
                            else (image_path, w1)))))"

text \<open>
  \<^verbatim>\<open>detect_text_from_image\<close> of \<^verbatim>\<open>process_logic.py\<close>. Only the reading of the file is
  inside a \<^verbatim>\<open>try\<close>; an exception of the service call leaves the function (\<open>Raised\<close>).
  The corrected file is removed by the last statement before the final \<^verbatim>\<open>return\<close>.
\<close>

datatype 'a outcome = Returned 'a | Raised

definition detect_text_from_image :: "env \<Rightarrow> world \<Rightarrow> ustring \<Rightarrow> ustring option outcome \<times> world" where
  "detect_text_from_image client w image_path =
     (let (corrected_path, w1) = detect_rotation_and_correct_image client w image_path in
      case files w1 corrected_path of
        None \<Rightarrow> (Returned None, w1)
      | Some content \<Rightarrow>
          if content = [] then (Returned None, w1)
          else
            let w2 = log_call (Document_text_detection content) w1 in
            (case document_text_detection client content of
               None \<Rightarrow> (Raised, w2)
             | Some resp \<Rightarrow>
                 if error_message resp \<noteq> [] then (Returned None, w2)
                 else
                   let text = (case text_annotations resp of
                                 [] \<Rightarrow> None
                               | a # _ \<Rightarrow> Some (description a));
                       w3 = (if corrected_path \<noteq> image_path \<and> files w2 corrected_path \<noteq> None
                             then w2\<lparr>files := (files w2)(corrected_path := None)\<rparr>
                             else w2)
                   in (Returned text, w3)))"

text \<open>The copy in \<^verbatim>\<open>process.py\<close>, which does not test the content for emptiness.\<close>

definition detect_text_from_image_process :: "env \<Rightarrow> world \<Rightarrow> ustring \<Rightarrow> ustring option outcome \<times> world" where
  "detect_text_from_image_process client w image_path =
     (let (corrected_path, w1) = detect_rotation_and_correct_image_process client w image_path in
      case files w1 corrected_path of
        None \<Rightarrow> (Returned None, w1)
      | Some content \<Rightarrow>
          let w2 = log_call (Document_text_detection content) w1 in
          (case document_text_detection client content of
             None \<Rightarrow> (Raised, w2)
           | Some resp \<Rightarrow>
               if error_message resp \<noteq> [] then (Returned None, w2)
               else
                 let text = (case text_annotations resp of
                               [] \<Rightarrow> None
                             | a # _ \<Rightarrow> Some (description a));
                     w3 = (if corrected_path \<noteq> image_path \<and> files w2 corrected_path \<noteq> None
                           then w2\<lparr>files := (files w2)(corrected_path := None)\<rparr>
                           else w2)
                 in (Returned text, w3)))"

text \<open>
  A photograph taken sideways: the first text region runs from \<open>(0, 0)\<close> to \<open>(0, 10)\<close>
  (\<^verbatim>\<open>atan2(10, 0)\<close> is a quarter turn), the image library rotates the file, and the
  service answers the full text detection with an error message.
\<close>

definition sideways_client :: env where
  "sideways_client =
     \<lparr>text_detection = (\<lambda>c. Some \<lparr>error_message = [],
          text_annotations = [\<lparr>description = u ''ID'', vertices = [(0, 0), (0, 10)]\<rparr>]\<rparr>),
      document_text_detection = (\<lambda>c. Some \<lparr>error_message = u ''Bad image data'', text_annotations = []\<rparr>),
      atan2 = (\<lambda>dy dx. if dy = 10 \<and> dx = 0 then 1.5707963267948966 else 0),
      rotate = (\<lambda>c deg. Some (c @ [0xD9]))\<rparr>"

definition one_photo :: world where
  "one_photo = \<lparr>files = [u ''row_2.jpg'' \<mapsto> [0xFF, 0xD8, 0xFF]], calls = []\<rparr>"

lemma corrected_path_row_2:
  "str_replace (str_replace (u ''row_2.jpg'') (u ''.jpg'') (u ''_corrected.jpg''))
     (u ''.png'') (u ''_corrected.png'') = u ''row_2_corrected.jpg''"
  by (simp add: u_def)

lemma rotation_row_2:
  "detect_rotation_and_correct_image sideways_client one_photo (u ''row_2.jpg'') =
     (u ''row_2_corrected.jpg'',
      \<lparr>files = [u ''row_2.jpg'' \<mapsto> [0xFF, 0xD8, 0xFF], u ''row_2_corrected.jpg'' \<mapsto> [0xFF, 0xD8, 0xFF, 0xD9]],
       calls = [Text_detection [0xFF, 0xD8, 0xFF]]\<rparr>)"
  by (simp add: detect_rotation_and_correct_image_def sideways_client_def one_photo_def log_call_def
      corrected_path_row_2 Let_def)

text \<open>
  C3. On this input the orientation correction writes \<^verbatim>\<open>row_2_corrected.jpg\<close>, the
  service reports an error on it, and \<^verbatim>\<open>detect_text_from_image\<close> returns \<^verbatim>\<open>None\<close>
  from the early \<^verbatim>\<open>return\<close>: the corrected file is still there afterwards.
\<close>

theorem corrected_file_left_behind:
  "fst (detect_text_from_image sideways_client one_photo (u ''row_2.jpg'')) = Returned None
   \<and> files (snd (detect_text_from_image sideways_client one_photo (u ''row_2.jpg'')))
        (u ''row_2_corrected.jpg'') = Some [0xFF, 0xD8, 0xFF, 0xD9]"
proof -
  have "detect_text_from_image sideways_client one_photo (u ''row_2.jpg'') =
      (Returned None,
       \<lparr>files = [u ''row_2.jpg'' \<mapsto> [0xFF, 0xD8, 0xFF], u ''row_2_corrected.jpg'' \<mapsto> [0xFF, 0xD8, 0xFF, 0xD9]],
        calls = [Text_detection [0xFF, 0xD8, 0xFF], Document_text_detection [0xFF, 0xD8, 0xFF, 0xD9]]\<rparr>)"
    unfolding detect_text_from_image_def rotation_row_2
    by (simp add: log_call_def sideways_client_def u_def)
  then show ?thesis by simp
qed

text \<open>
  On the path that reaches the final \<^verbatim>\<open>return\<close> the corrected file is removed.
\<close>

lemma corrected_file_removed_on_success:
  assumes "detect_rotation_and_correct_image client w image_path = (corrected_path, w1)"
    "corrected_path \<noteq> image_path"
    "files w1 corrected_path = Some content" "content \<noteq> []"
    "document_text_detection client content = Some resp" "error_message resp = []"
  shows "files (snd (detect_text_from_image client w image_path)) corrected_path = None"
  using assms by (simp add: detect_text_from_image_def Let_def log_call_def)

text \<open>
  The empty image. The function of \<^verbatim>\<open>process_logic.py\<close> returns the path it was given
  and leaves the world as it is: no call is logged.
\<close>

lemma empty_content_no_probe:
  "files w image_path = Some [] \<Longrightarrow>
     detect_rotation_and_correct_image client w image_path = (image_path, w)"
  by (simp add: detect_rotation_and_correct_image_def)

text \<open>
  C4. The copy in \<^verbatim>\<open>process.py\<close> has no such test: whatever the service answers, a
  file with empty content is sent to the text detection.
\<close>

theorem empty_content_probed_by_process_copy:
  "calls (snd (detect_rotation_and_correct_image_process client
       (w\<lparr>files := (files w)(image_path \<mapsto> [])\<rparr>) image_path))
     = calls w @ [Text_detection []]"
  by (simp add: detect_rotation_and_correct_image_process_def Let_def log_call_def
      split: option.splits list.splits)

section \<open>The batch verification route of \<^verbatim>\<open>app.py\<close>\<close>

text \<open>
  A row of the spreadsheet: \<^verbatim>\<open>str(row['id'])\<close>, \<^verbatim>\<open>str(row['nationality_id'])\<close> and the
  cell \<^verbatim>\<open>row['back link']\<close>, which is a string or something else (an empty cell is a
  float). What \<^verbatim>\<open>requests.get\<close> does and whether the file can be written is given by
  the environment of the route: a request fails with the message of its exception, or
  answers with a content type (already lower-cased) and a body.
\<close>

datatype cell = Str ustring | Not_str

record row =
  row_id :: ustring
  nationality_id :: ustring
  back_link :: cell

datatype http_outcome = Request_failed ustring | Http_response ustring bytes

datatype excel_outcome = Excel_missing | Excel_unreadable ustring | Excel_table "ustring list" "row list"

record net =
  http_get :: "ustring \<Rightarrow> http_outcome"
  write_error :: "ustring \<Rightarrow> ustring option"
  excel :: excel_outcome
  vision_client :: "env option"
  path_sep :: ustring

text \<open>
  \<^verbatim>\<open>url.lower() == 'null'\<close>: only \<open>N\<close>, \<open>U\<close>, \<open>L\<close> and their small letters are lower-cased
  to the letters of \<^verbatim>\<open>'null'\<close>.
\<close>

definition lower_is_null :: "ustring \<Rightarrow> bool" where
  "lower_is_null url =
     (case url of
        [a, b, c, d] \<Rightarrow> (a = 0x4E \<or> a = 0x6E) \<and> (b = 0x55 \<or> b = 0x75)
                        \<and> (c = 0x4C \<or> c = 0x6C) \<and> (d = 0x4C \<or> d = 0x6C)
      | _ \<Rightarrow> False)"

definition strip :: "ustring \<Rightarrow> ustring" where
  "strip s = rev (dropWhile isspace (rev (dropWhile isspace s)))"

definition download_image :: "net \<Rightarrow> world \<Rightarrow> cell \<Rightarrow> ustring \<Rightarrow> (bool \<times> ustring) \<times> world" where
  "download_image n w url output_path =
     (case url of
        Not_str \<Rightarrow> ((False, u ''Invalid or empty URL''), w)
      | Str url \<Rightarrow>
          if strip url = [] \<or> lower_is_null url then ((False, u ''Invalid or empty URL''), w)
          else
            (case http_get n url of
               Request_failed e \<Rightarrow> ((False, u ''Download error: '' @ e), w)
             | Http_response content_type body \<Rightarrow>
                 if \<not> startswith content_type [u ''image/'']
                 then ((False, u ''URL is not an image (Content-Type: '' @ content_type @ u '')''), w)
                 else
                   (case write_error n output_path of
                      Some e \<Rightarrow> ((False, u ''File save error: '' @ e), w)
                    | None \<Rightarrow> ((True, u ''Success''), w\<lparr>files := (files w)(output_path \<mapsto> body)\<rparr>))))"

text \<open>The decimal numeral of a natural number, for \<^verbatim>\<open>f"row_{index + 2}.jpg"\<close>.\<close>

function str_of_nat :: "nat \<Rightarrow> ustring" where
  "str_of_nat n = (if n < 10 then [0x30 + n] else str_of_nat (n div 10) @ [0x30 + n mod 10])"
  by pat_completeness auto
termination
  by (relation "measure id") auto

declare str_of_nat.simps [simp del]

record verification =
  excel_row_id :: ustring
  excel_nationality_id :: ustring
  extracted_id :: "ustring option"
  is_match :: bool
  image_path :: "ustring option"

definition local_filename :: "nat \<Rightarrow> ustring" where
  "local_filename index = u ''row_'' @ str_of_nat (index + 2) @ u ''.jpg''"

definition local_filepath :: "net \<Rightarrow> nat \<Rightarrow> ustring" where
  "local_filepath n index = u ''static/downloaded_images'' @ path_sep n @ local_filename index"

text \<open>
  The body of the loop for the row with index \<open>index\<close>. An exception of
  \<^verbatim>\<open>detect_text_from_image\<close> is caught nowhere in the route.
\<close>

definition process_row :: "net \<Rightarrow> env \<Rightarrow> world \<Rightarrow> nat \<Rightarrow> row \<Rightarrow> verification outcome \<times> world" where
  "process_row n client w index r =
     (let ((success, message), w1) = download_image n w (back_link r) (local_filepath n index)
      in if success
         then (case detect_text_from_image client w1 (local_filepath n index) of
                 (Raised, w2) \<Rightarrow> (Raised, w2)
               | (Returned original_text, w2) \<Rightarrow>
                   let extracted =
                         (case original_text of
                            None \<Rightarrow> Some (u ''Extraction Failed'')
                          | Some t \<Rightarrow> if t = [] then Some (u ''Extraction Failed'')
                                      else extract_national_id t)
                   in (Returned \<lparr>excel_row_id = row_id r, excel_nationality_id = nationality_id r,
                                  extracted_id = extracted,
                                  is_match = (extracted = Some (nationality_id r)),
                                  image_path = Some (local_filename index)\<rparr>, w2))
         else (Returned \<lparr>excel_row_id = row_id r, excel_nationality_id = nationality_id r,
                         extracted_id = Some (u ''Download Failed: '' @ message),
                         is_match = False,
                         image_path = None\<rparr>, w1))"

fun process_rows :: "net \<Rightarrow> env \<Rightarrow> world \<Rightarrow> nat \<Rightarrow> row list \<Rightarrow> verification list outcome \<times> world" where
  "process_rows n client w index [] = (Returned [], w)"
| "process_rows n client w index (r # rs) =
     (case process_row n client w index r of
        (Raised, w1) \<Rightarrow> (Raised, w1)
      | (Returned v, w1) \<Rightarrow>
          (case process_rows n client w1 (Suc index) rs of
             (Raised, w2) \<Rightarrow> (Raised, w2)
           | (Returned vs, w2) \<Rightarrow> (Returned (v # vs), w2)))"

text \<open>
  \<^verbatim>\<open>process_from_excel_links\<close>: the page rendered has the list of results, or
  \<^verbatim>\<open>results=None\<close> after an error (\<open>Returned None\<close>). Only the first ten rows of the
  spreadsheet are read (\<^verbatim>\<open>df_full.head(10)\<close>). The flashed messages are not modelled.
\<close>

definition process_from_excel_links :: "net \<Rightarrow> world \<Rightarrow> verification list option outcome \<times> world" where
  "process_from_excel_links n w =
     (case excel n of
        Excel_missing \<Rightarrow> (Returned None, w)
      | Excel_unreadable e \<Rightarrow> (Returned None, w)
      | Excel_table columns df_full \<Rightarrow>
          let df = take 10 df_full in
          if \<not> list_all (\<lambda>col. col \<in> set columns) [u ''id'', u ''nationality_id'', u ''back link'']
          then (Returned None, w)
          else
            (case vision_client n of
               None \<Rightarrow> (Returned None, w)
             | Some client \<Rightarrow>
                 (case process_rows n client w 0 df of
                    (Raised, w1) \<Rightarrow> (Raised, w1)
                  | (Returned results, w1) \<Rightarrow> (Returned (Some results), w1))))"

text \<open>
  Whether \<^verbatim>\<open>download_image\<close> succeeds, and its message, do not depend on the files.
\<close>

definition acquisition :: "net \<Rightarrow> cell \<Rightarrow> ustring \<Rightarrow> bool \<times> ustring" where
  "acquisition n url path = fst (download_image n \<lparr>files = Map.empty, calls = []\<rparr> url path)"

lemma fst_download_image: "fst (download_image n w url path) = acquisition n url path"
  by (simp add: acquisition_def download_image_def
      split: cell.splits http_outcome.splits option.splits)

lemma detect_text_from_image_returns:
  assumes "\<forall>c. document_text_detection client c \<noteq> None"
  shows "\<exists>t w'. detect_text_from_image client w p = (Returned t, w')"
proof -
  obtain cp w1 where r: "detect_rotation_and_correct_image client w p = (cp, w1)"
    by (metis surj_pair)
  show ?thesis
  proof (cases "files w1 cp")
    case None
    with r show ?thesis by (simp add: detect_text_from_image_def)
  next
    case (Some content)
    from assms have "document_text_detection client content \<noteq> None" by (rule spec)
    then obtain resp where d: "document_text_detection client content = Some resp"
      by (cases "document_text_detection client content") simp_all
    from r Some d show ?thesis
      by (cases "content = []"; cases "error_message resp = []")
         (simp_all add: detect_text_from_image_def Let_def)
  qed
qed

lemma process_row_ok:
  assumes "\<forall>c. document_text_detection client c \<noteq> None"
  shows "\<exists>v w'. process_row n client w k r = (Returned v, w')
           \<and> excel_row_id v = row_id r \<and> excel_nationality_id v = nationality_id r
           \<and> (\<not> fst (acquisition n (back_link r) (local_filepath n k)) \<longrightarrow>
                 extracted_id v = Some (u ''Download Failed: '' @ snd (acquisition n (back_link r) (local_filepath n k)))
                 \<and> \<not> is_match v)"
proof -
  obtain success message w1 where d: "download_image n w (back_link r) (local_filepath n k) = ((success, message), w1)"
    by (metis surj_pair)
  with fst_download_image[of n w "back_link r" "local_filepath n k"]
  have a: "acquisition n (back_link r) (local_filepath n k) = (success, message)" by simp
  show ?thesis
  proof (cases success)
    case True
    from detect_text_from_image_returns[OF assms, of w1 "local_filepath n k"] obtain t w2 where
      "detect_text_from_image client w1 (local_filepath n k) = (Returned t, w2)" by blast
    with d a True show ?thesis by (simp add: process_row_def Let_def)
  next
    case False
    with d a show ?thesis by (simp add: process_row_def)
  qed
qed

lemma process_rows_ok:
  assumes "\<forall>c. document_text_detection client c \<noteq> None"
  shows "\<exists>vs w'. process_rows n client w k rs = (Returned vs, w')
           \<and> length vs = length rs
           \<and> map excel_row_id vs = map row_id rs
           \<and> map excel_nationality_id vs = map nationality_id rs
           \<and> (\<forall>i < length rs.
                 \<not> fst (acquisition n (back_link (rs ! i)) (local_filepath n (k + i))) \<longrightarrow>
                   extracted_id (vs ! i) =
                     Some (u ''Download Failed: '' @ snd (acquisition n (back_link (rs ! i)) (local_filepath n (k + i))))
                   \<and> \<not> is_match (vs ! i))"
proof (induction rs arbitrary: w k)
  case Nil
  then show ?case by simp
next
  case (Cons r rs)
  from process_row_ok[OF assms, of n w k r] obtain v w1 where
    v: "process_row n client w k r = (Returned v, w1)"
       "excel_row_id v = row_id r" "excel_nationality_id v = nationality_id r"
       "\<not> fst (acquisition n (back_link r) (local_filepath n k)) \<longrightarrow>
          extracted_id v = Some (u ''Download Failed: '' @ snd (acquisition n (back_link r) (local_filepath n k)))
          \<and> \<not> is_match v"
    by blast
  from Cons[of w1 "Suc k"] obtain vs w2 where
    vs: "process_rows n client w1 (Suc k) rs = (Returned vs, w2)"
        "length vs = length rs" "map excel_row_id vs = map row_id rs"
        "map excel_nationality_id vs = map nationality_id rs"
        "\<forall>i < length rs.
           \<not> fst (acquisition n (back_link (rs ! i)) (local_filepath n (Suc k + i))) \<longrightarrow>
             extracted_id (vs ! i) =
               Some (u ''Download Failed: '' @ snd (acquisition n (back_link (rs ! i)) (local_filepath n (Suc k + i))))
             \<and> \<not> is_match (vs ! i)"
    by blast
  have "\<not> fst (acquisition n (back_link ((r # rs) ! i)) (local_filepath n (k + i))) \<longrightarrow>
          extracted_id ((v # vs) ! i) =
            Some (u ''Download Failed: '' @ snd (acquisition n (back_link ((r # rs) ! i)) (local_filepath n (k + i))))
          \<and> \<not> is_match ((v # vs) ! i)" if "i < length (r # rs)" for i
  proof (cases i)
    case 0
    with v(4) show ?thesis by simp
  next
    case (Suc j)
    with that have "j < length rs" by simp
    with vs(5) Suc show ?thesis by simp
  qed
  with v vs show ?case by simp
qed

text \<open>
  C8, as the code has it. When the spreadsheet has the three columns, the OCR client
  could be set up and no call of the full text detection raises, the route produces one
  result for each of the first ten records, in the order of the input, whichever of
  them fail; a record whose image cannot be acquired gets the marker
  \<^verbatim>\<open>Download Failed: ...\<close> as extracted id and \<^verbatim>\<open>is_match = False\<close>, and the loop goes on.
\<close>

theorem batch_results_in_order:
  assumes "excel n = Excel_table columns df_full"
    and "list_all (\<lambda>col. col \<in> set columns) [u ''id'', u ''nationality_id'', u ''back link'']"
    and "vision_client n = Some client"
    and "\<forall>c. document_text_detection client c \<noteq> None"
  shows "\<exists>results w'.
           process_from_excel_links n w = (Returned (Some results), w')
           \<and> length results = min 10 (length df_full)
           \<and> map excel_row_id results = map row_id (take 10 df_full)
           \<and> map excel_nationality_id results = map nationality_id (take 10 df_full)
           \<and> (\<forall>i < length results.
                 \<not> fst (acquisition n (back_link (df_full ! i)) (local_filepath n i)) \<longrightarrow>
                   extracted_id (results ! i) =
                     Some (u ''Download Failed: '' @ snd (acquisition n (back_link (df_full ! i)) (local_filepath n i)))
                   \<and> \<not> is_match (results ! i))"
proof -
  from process_rows_ok[OF assms(4), of n w 0 "take 10 df_full"] obtain vs w' where
    vs: "process_rows n client w 0 (take 10 df_full) = (Returned vs, w')"
        "length vs = length (take 10 df_full)"
        "map excel_row_id vs = map row_id (take 10 df_full)"
        "map excel_nationality_id vs = map nationality_id (take 10 df_full)"
        "\<forall>i < length (take 10 df_full).
           \<not> fst (acquisition n (back_link (take 10 df_full ! i)) (local_filepath n (0 + i))) \<longrightarrow>
             extracted_id (vs ! i) =
               Some (u ''Download Failed: '' @ snd (acquisition n (back_link (take 10 df_full ! i)) (local_filepath n (0 + i))))
             \<and> \<not> is_match (vs ! i)"
    by blast
  have p: "process_from_excel_links n w = (Returned (Some vs), w')"
    using assms(1-3) vs(1) by (simp add: process_from_excel_links_def Let_def)
  have l: "length vs = min 10 (length df_full)" using vs(2) by (simp add: min.commute)
  have "\<forall>i < length vs.
          \<not> fst (acquisition n (back_link (df_full ! i)) (local_filepath n i)) \<longrightarrow>
            extracted_id (vs ! i) =
              Some (u ''Download Failed: '' @ snd (acquisition n (back_link (df_full ! i)) (local_filepath n i)))
            \<and> \<not> is_match (vs ! i)"
    using vs(5) vs(2) by simp
  with p l vs(3,4) show ?thesis by blast
qed

text \<open>
  Two records: the image of the first is fetched and read, the second has no link.
\<close>

definition reading_client :: env where
  "reading_client =
     \<lparr>text_detection = (\<lambda>c. Some \<lparr>error_message = [], text_annotations = []\<rparr>),
      document_text_detection = (\<lambda>c. Some \<lparr>error_message = [],
          text_annotations = [\<lparr>description = u ''ID 29901011234567'', vertices = []\<rparr>]\<rparr>),
      atan2 = (\<lambda>dy dx. 0),
      rotate = (\<lambda>c deg. None)\<rparr>"

definition required_columns :: "ustring list" where
  "required_columns = [u ''id'', u ''nationality_id'', u ''back link'']"

definition two_records :: net where
  "two_records =
     \<lparr>http_get = (\<lambda>url. Http_response (u ''image/jpeg'') [0xFF, 0xD8, 0xFF]),
      write_error = (\<lambda>path. None),
      excel = Excel_table required_columns
        [\<lparr>row_id = u ''1'', nationality_id = u ''29901011234567'', back_link = Str (u ''http://x/a.jpg'')\<rparr>,
         \<lparr>row_id = u ''2'', nationality_id = u ''30001011234567'', back_link = Not_str\<rparr>],
      vision_client = Some reading_client,
      path_sep = u ''/''\<rparr>"

definition no_files :: world where
  "no_files = \<lparr>files = Map.empty, calls = []\<rparr>"

theorem batch_results_in_order_witness:
  "\<exists>results w'.
     process_from_excel_links two_records no_files = (Returned (Some results), w')
     \<and> length results = 2
     \<and> map excel_row_id results = [u ''1'', u ''2'']
     \<and> \<not> fst (acquisition two_records Not_str (local_filepath two_records 1))
     \<and> extracted_id (results ! 1) = Some (u ''Download Failed: Invalid or empty URL'')
     \<and> \<not> is_match (results ! 1)"
proof -
  have e: "excel two_records = Excel_table required_columns
      [\<lparr>row_id = u ''1'', nationality_id = u ''29901011234567'', back_link = Str (u ''http://x/a.jpg'')\<rparr>,
       \<lparr>row_id = u ''2'', nationality_id = u ''30001011234567'', back_link = Not_str\<rparr>]"
    by (simp add: two_records_def)
  have c: "list_all (\<lambda>col. col \<in> set required_columns) [u ''id'', u ''nationality_id'', u ''back link'']"
    by (simp add: required_columns_def)
  have v: "vision_client two_records = Some reading_client" by (simp add: two_records_def)
  have d: "\<forall>c. document_text_detection reading_client c \<noteq> None" by (simp add: reading_client_def)
  have a: "acquisition two_records Not_str (local_filepath two_records 1) = (False, u ''Invalid or empty URL'')"
    by (simp add: acquisition_def download_image_def)
  from batch_results_in_order[OF e c v d, of no_files] obtain results w' where
    r: "process_from_excel_links two_records no_files = (Returned (Some results), w')"
       "length results = min 10 (length
          [\<lparr>row_id = u ''1'', nationality_id = u ''29901011234567'', back_link = Str (u ''http://x/a.jpg'')\<rparr>,
           \<lparr>row_id = u ''2'', nationality_id = u ''30001011234567'', back_link = Not_str\<rparr>])"
       "map excel_row_id results = map row_id (take 10
          [\<lparr>row_id = u ''1'', nationality_id = u ''29901011234567'', back_link = Str (u ''http://x/a.jpg'')\<rparr>,
           \<lparr>row_id = u ''2'', nationality_id = u ''30001011234567'', back_link = Not_str\<rparr>])"
       "\<forall>i < length results.
          \<not> fst (acquisition two_records (back_link
              ([\<lparr>row_id = u ''1'', nationality_id = u ''29901011234567'', back_link = Str (u ''http://x/a.jpg'')\<rparr>,
                \<lparr>row_id = u ''2'', nationality_id = u ''30001011234567'', back_link = Not_str\<rparr>] ! i))
              (local_filepath two_records i)) \<longrightarrow>
            extracted_id (results ! i) =
              Some (u ''Download Failed: '' @ snd (acquisition two_records (back_link
              ([\<lparr>row_id = u ''1'', nationality_id = u ''29901011234567'', back_link = Str (u ''http://x/a.jpg'')\<rparr>,
                \<lparr>row_id = u ''2'', nationality_id = u ''30001011234567'', back_link = Not_str\<rparr>] ! i))
              (local_filepath two_records i)))
            \<and> \<not> is_match (results ! i)"
    by blast
  from r(2) have l: "length results = 2" by simp
  from r(4)[rule_format, of 1] l a
  have x: "extracted_id (results ! 1) = Some (u ''Download Failed: Invalid or empty URL'')"
       "\<not> is_match (results ! 1)"
    by (simp_all add: u_def)
  from r(3) have m: "map excel_row_id results = [u ''1'', u ''2'']" by simp
  from r(1) l m a x show ?thesis by simp
qed

text \<open>
  The claim as stated fails: of eleven records only the first ten get a result.
\<close>

definition eleven_records :: net where
  "eleven_records =
     \<lparr>http_get = (\<lambda>url. Request_failed (u ''timeout'')),
      write_error = (\<lambda>path. None),
      excel = Excel_table required_columns
        (replicate 11 \<lparr>row_id = u ''1'', nationality_id = u ''29901011234567'', back_link = Not_str\<rparr>),
      vision_client = Some reading_client,
      path_sep = u ''/''\<rparr>"

lemma process_rows_no_link:
  "\<forall>r \<in> set rs. back_link r = Not_str \<Longrightarrow>
     \<exists>vs. process_rows n client w k rs = (Returned vs, w) \<and> length vs = length rs"
proof (induction rs arbitrary: k)
  case Nil
  then show ?case by simp
next
  case (Cons r rs)
  then have "back_link r = Not_str" by simp
  then have "\<exists>v. process_row n client w k r = (Returned v, w)"
    by (simp add: process_row_def download_image_def)
  moreover from Cons have "\<exists>vs. process_rows n client w (Suc k) rs = (Returned vs, w) \<and> length vs = length rs"
    by simp
  ultimately show ?case by auto
qed

theorem batch_truncated_counterexample:
  "(\<exists>columns df. excel eleven_records = Excel_table columns df \<and> length df = 11)
   \<and> (\<exists>results w'. process_from_excel_links eleven_records no_files = (Returned (Some results), w')
         \<and> length results = 10)"
proof -
  let ?r = "\<lparr>row_id = u ''1'', nationality_id = u ''29901011234567'', back_link = Not_str\<rparr>"
  have "\<forall>r \<in> set (take 10 (replicate 11 ?r)). back_link r = Not_str" by simp
  from process_rows_no_link[OF this, of eleven_records reading_client no_files 0]
  obtain vs where "process_rows eleven_records reading_client no_files 0 (take 10 (replicate 11 ?r)) = (Returned vs, no_files)"
    "length vs = 10" by auto
  then have "process_from_excel_links eleven_records no_files = (Returned (Some vs), no_files) \<and> length vs = 10"
    by (simp add: process_from_excel_links_def eleven_records_def required_columns_def Let_def)
  moreover have "\<exists>columns df. excel eleven_records = Excel_table columns df \<and> length df = 11"
    by (simp add: eleven_records_def)
  ultimately show ?thesis by blast
qed

text \<open>
  An exception of the full text detection is caught nowhere: it ends the route at the
  record where it is raised, and no result list is produced.
\<close>

lemma ocr_exception_ends_batch:
  assumes "excel n = Excel_table columns (r # rs)"
    and "list_all (\<lambda>col. col \<in> set columns) [u ''id'', u ''nationality_id'', u ''back link'']"
    and "vision_client n = Some client"
    and "fst (detect_text_from_image client (snd (download_image n w (back_link r) (local_filepath n 0)))
           (local_filepath n 0)) = Raised"
    and "fst (acquisition n (back_link r) (local_filepath n 0))"
  shows "fst (process_from_excel_links n w) = Raised"
proof -
  obtain success message w1 where d: "download_image n w (back_link r) (local_filepath n 0) = ((success, message), w1)"
    by (metis surj_pair)
  with fst_download_image[of n w "back_link r" "local_filepath n 0"]
  have "acquisition n (back_link r) (local_filepath n 0) = (success, message)" by simp
  with assms(5) have s: success by simp
  obtain o2 w2 where t: "detect_text_from_image client w1 (local_filepath n 0) = (o2, w2)"
    by (metis surj_pair)
  with assms(4) d have "o2 = Raised" by simp
  with d s t have "process_row n client w 0 r = (Raised, w2)" by (simp add: process_row_def)
  then have "fst (process_rows n client w 0 (take 10 (r # rs))) = Raised" by (simp add: take_Cons')
  with assms(1-3) show ?thesis
    by (simp add: process_from_excel_links_def Let_def split: prod.splits outcome.splits)
qed

section \<open>Extraction of the full name (\<^verbatim>\<open>test2photos.py\<close>)\<close>

text \<open>
  \<^verbatim>\<open>str.split('\n')\<close> (one more piece than there are separators), the substring test
  \<^verbatim>\<open>sub in s\<close>, the index of the first element that satisfies a test (\<^verbatim>\<open>next\<close> over
  \<^verbatim>\<open>enumerate\<close>; \<open>None\<close> is \<^verbatim>\<open>StopIteration\<close>), and \<^verbatim>\<open>str.split()\<close>, which cuts at runs
  of whitespace and yields no empty piece.
\<close>

fun split_on :: "nat \<Rightarrow> ustring \<Rightarrow> ustring list" where
  "split_on sep [] = [[]]"
| "split_on sep (c # cs) =
     (if c = sep then [] # split_on sep cs
      else (case split_on sep cs of [] \<Rightarrow> [[c]] | p # ps \<Rightarrow> (c # p) # ps))"

fun contains :: "ustring \<Rightarrow> ustring \<Rightarrow> bool" where
  "contains sub [] = (sub = [])"
| "contains sub (c # cs) = (take (length sub) (c # cs) = sub \<or> contains sub cs)"

fun first_index :: "('a \<Rightarrow> bool) \<Rightarrow> 'a list \<Rightarrow> nat option" where
  "first_index P [] = None"
| "first_index P (x # xs) =
     (if P x then Some 0 else (case first_index P xs of None \<Rightarrow> None | Some i \<Rightarrow> Some (Suc i)))"

function str_split :: "ustring \<Rightarrow> ustring list" where
  "str_split s =
     (case dropWhile isspace s of
        [] \<Rightarrow> []
      | c # cs \<Rightarrow> (c # takeWhile (\<lambda>x. \<not> isspace x) cs) # str_split (dropWhile (\<lambda>x. \<not> isspace x) cs))"
  by pat_completeness auto
termination
proof (relation "measure length")
  show "wf (measure length)" by simp
next
  fix s :: ustring and c cs
  assume a: "dropWhile isspace s = c # cs"
  have "length (dropWhile (\<lambda>x. \<not> isspace x) cs) \<le> length cs" by (rule length_dropWhile_le)
  moreover have "length (dropWhile isspace s) \<le> length s" by (rule length_dropWhile_le)
  ultimately show "(dropWhile (\<lambda>x. \<not> isspace x) cs, s) \<in> measure length" using a by simp
qed

declare str_split.simps [simp del]

text \<open>The printed title of the card and the pattern \<^verbatim>\<open>[\u0600-\u06FF\s]+\<close>.\<close>

definition header_phrase :: ustring where
  "header_phrase =
     [0x628, 0x637, 0x627, 0x642, 0x629, 0x20, 0x62A, 0x62D, 0x642, 0x64A, 0x642, 0x20,
      0x627, 0x644, 0x634, 0x62E, 0x635, 0x64A, 0x629]"

definition name_pattern :: regex where
  "name_pattern = Many1 (Set [Range 0x600 0x6FF, Space])"

definition is_valid_name :: "ustring \<Rightarrow> bool" where
  "is_valid_name name_candidate =
     (2 \<le> length (str_split name_candidate) \<and> length (str_split name_candidate) \<le> 4
      \<and> re_fullmatch name_pattern name_candidate
      \<and> \<not> list_ex isdigit name_candidate)"

text \<open>The loop \<^verbatim>\<open>for i in range(1, 3)\<close>, over the offsets still to be tried.\<close>

fun name_loop :: "ustring list \<Rightarrow> nat \<Rightarrow> nat list \<Rightarrow> ustring option" where
  "name_loop lines header_index [] = None"
| "name_loop lines header_index (i # offsets) =
     (if header_index + i < length lines
      then (let name_candidate = strip (lines ! (header_index + i))
            in if is_valid_name name_candidate then Some name_candidate
               else name_loop lines header_index offsets)
      else name_loop lines header_index offsets)"

definition extract_full_name :: "ustring \<Rightarrow> ustring option" where
  "extract_full_name text =
     (if text = [] then None
      else
        let lines = split_on 0x0A text in
        case first_index (contains header_phrase) lines of
          None \<Rightarrow> None
        | Some header_index \<Rightarrow> name_loop lines header_index [1, 2])"

text \<open>
  The acceptance test in the words of the specification: 2 to 4 whitespace-separated
  tokens, only characters of the Arabic block or whitespace, no digit.
\<close>

definition acceptable_name :: "ustring \<Rightarrow> bool" where
  "acceptable_name c =
     (length (str_split c) \<in> {2, 3, 4}
      \<and> list_all (\<lambda>x. (0x600 \<le> x \<and> x \<le> 0x6FF) \<or> isspace x) c
      \<and> list_all (\<lambda>x. \<not> isdigit x) c)"

lemma str_split_Nil: "str_split [] = []"
  by (simp add: str_split.simps)

lemma fullmatch_name_pattern:
  "re_fullmatch name_pattern c \<longleftrightarrow>
     c \<noteq> [] \<and> list_all (\<lambda>x. (0x600 \<le> x \<and> x \<le> 0x6FF) \<or> isspace x) c"
proof -
  let ?cs = "[Range 0x600 0x6FF, Space]"
  have e: "ends name_pattern (None, c) = map (advance (None, c)) (rev [1..<Suc (run ?cs c)])"
    using many1_atom[of ?cs "(None, c)"] by (simp add: name_pattern_def)
  have "re_fullmatch name_pattern c \<longleftrightarrow> (\<exists>k. 1 \<le> k \<and> k \<le> run ?cs c \<and> length c \<le> k)"
    by (auto simp: re_fullmatch_def e list_ex_iff)
  also have "\<dots> \<longleftrightarrow> c \<noteq> [] \<and> length c \<le> run ?cs c"
    using run_le[of ?cs c] by (cases c) (auto intro: exI[of _ "length c"])
  also have "\<dots> \<longleftrightarrow> c \<noteq> [] \<and> list_all (\<lambda>x. (0x600 \<le> x \<and> x \<le> 0x6FF) \<or> isspace x) c"
    by (simp add: run_ge_iff)
  finally show ?thesis .
qed

lemma is_valid_name_acceptable: "is_valid_name c = acceptable_name c"
proof -
  have "c \<noteq> []" if "2 \<le> length (str_split c)"
    using that str_split_Nil by (cases c) auto
  then show ?thesis
    by (auto simp: is_valid_name_def acceptable_name_def fullmatch_name_pattern list_ex_iff list_all_iff)
qed

lemma first_index_None: "first_index P xs = None \<longleftrightarrow> (\<forall>x \<in> set xs. \<not> P x)"
  by (induction xs) (auto split: option.splits)

lemma first_index_Some:
  "first_index P xs = Some i \<Longrightarrow> i < length xs \<and> P (xs ! i) \<and> (\<forall>j < i. \<not> P (xs ! j))"
proof (induction xs arbitrary: i)
  case Nil
  then show ?case by simp
next
  case (Cons x xs)
  show ?case
  proof (cases "P x")
    case True
    with Cons.prems show ?thesis by simp
  next
    case False
    with Cons.prems obtain i' where i': "first_index P xs = Some i'" "i = Suc i'"
      by (auto split: option.splits)
    from Cons.IH[OF i'(1)] False i'(2) show ?thesis by (auto simp: less_Suc_eq_0_disj)
  qed
qed

lemma name_loop_find:
  "name_loop lines h [1, 2] = find acceptable_name (map strip (take 2 (drop (Suc h) lines)))"
proof -
  consider "length lines \<le> Suc h" | "length lines = Suc (Suc h)" | "Suc (Suc h) < length lines"
    by linarith
  then show ?thesis
  proof cases
    case 1
    then show ?thesis by simp
  next
    case 2
    then have "drop (Suc h) lines = [lines ! Suc h]"
      by (metis Cons_nth_drop_Suc drop_all lessI order_refl)
    with 2 show ?thesis by (simp add: is_valid_name_acceptable Let_def)
  next
    case 3
    then have "drop (Suc h) lines = lines ! Suc h # lines ! Suc (Suc h) # drop (Suc (Suc (Suc h))) lines"
      by (metis Cons_nth_drop_Suc Suc_lessD)
    with 3 show ?thesis by (simp add: is_valid_name_acceptable Let_def)
  qed
qed

lemma header_phrase_not_in_empty: "\<not> contains header_phrase []"
  by (simp add: header_phrase_def)

text \<open>
  C9. \<^verbatim>\<open>extract_full_name\<close> returns nothing when no line contains the header phrase.
  When \<open>h\<close> is the index of the first line that contains it, the function looks at the
  one or two lines that follow, stripped, and returns the first that has 2 to 4
  whitespace-separated tokens, consists of Arabic-block characters and whitespace only
  and contains no digit; when each of them contains a digit it returns nothing.
\<close>

theorem extract_full_name_candidates:
  "((\<forall>line \<in> set (split_on 0x0A text). \<not> contains header_phrase line)
      \<longrightarrow> extract_full_name text = None)
   \<and> (first_index (contains header_phrase) (split_on 0x0A text) = Some h \<longrightarrow>
        extract_full_name text =
          find acceptable_name (map strip (take 2 (drop (Suc h) (split_on 0x0A text))))
        \<and> ((\<forall>c \<in> set (map strip (take 2 (drop (Suc h) (split_on 0x0A text)))). list_ex isdigit c)
             \<longrightarrow> extract_full_name text = None))"
proof -
  let ?lines = "split_on 0x0A text"
  let ?cands = "map strip (take 2 (drop (Suc h) ?lines))"
  have a: "extract_full_name text = None" if "\<forall>line \<in> set ?lines. \<not> contains header_phrase line"
    using that first_index_None[of "contains header_phrase" ?lines]
    by (simp add: extract_full_name_def Let_def)
  have b: "extract_full_name text = find acceptable_name ?cands"
    if h: "first_index (contains header_phrase) ?lines = Some h"
  proof -
    have "text \<noteq> []"
    proof
      assume "text = []"
      with h header_phrase_not_in_empty show False by simp
    qed
    with h have "extract_full_name text = name_loop ?lines h [1, 2]"
      by (simp add: extract_full_name_def Let_def del: name_loop.simps)
    then show ?thesis by (simp only: name_loop_find)
  qed
  have c: "find acceptable_name ?cands = None" if "\<forall>c \<in> set ?cands. list_ex isdigit c"
  proof -
    have "\<not> acceptable_name c" if "c \<in> set ?cands" for c
      using that \<open>\<forall>c \<in> set ?cands. list_ex isdigit c\<close>
      by (auto simp: acceptable_name_def list_ex_iff list_all_iff)
    then show ?thesis by (simp add: find_None_iff)
  qed
  from a b c show ?thesis by simp
qed

text \<open>
  A card whose title is followed by a two-word name, one whose title is followed by a
  line with an Arabic-Indic digit, and a text without the title.
\<close>

definition sample_name :: ustring where
  "sample_name = [0x645, 0x62D, 0x645, 0x62F, 0x20, 0x639, 0x644, 0x64A]"

definition sample_numbered :: ustring where
  "sample_numbered = [0x645, 0x62D, 0x645, 0x62F, 0x20, 0x661]"

definition sample_card :: ustring where
  "sample_card = header_phrase @ [0x0A] @ sample_name"

definition sample_card_numbered :: ustring where
  "sample_card_numbered = header_phrase @ [0x0A] @ sample_numbered"

theorem extract_full_name_candidates_witness:
  "extract_full_name sample_card = Some sample_name
   \<and> acceptable_name sample_name
   \<and> list_ex isdigit sample_numbered
   \<and> extract_full_name sample_card_numbered = None
   \<and> extract_full_name (u ''Name: Ali'') = None"
proof -
  have l1: "split_on 0x0A sample_card = [header_phrase, sample_name]"
    by (simp add: sample_card_def header_phrase_def sample_name_def)
  have i1: "first_index (contains header_phrase) (split_on 0x0A sample_card) = Some 0"
    unfolding l1 by (simp add: header_phrase_def)
  have s1: "strip sample_name = sample_name"
    by (simp add: strip_def sample_name_def isspace_def space_ranges_def)
  have acc: "acceptable_name sample_name"
    by (simp add: acceptable_name_def sample_name_def str_split.simps isspace_def space_ranges_def
        isdigit_def digit_ranges_def)
  from extract_full_name_candidates[of sample_card 0] i1
  have "extract_full_name sample_card =
      find acceptable_name (map strip (take 2 (drop (Suc 0) (split_on 0x0A sample_card))))"
    by blast
  then have r1: "extract_full_name sample_card = Some sample_name"
    by (simp add: l1 s1 acc)
  have l2: "split_on 0x0A sample_card_numbered = [header_phrase, sample_numbered]"
    by (simp add: sample_card_numbered_def header_phrase_def sample_numbered_def)
  have i2: "first_index (contains header_phrase) (split_on 0x0A sample_card_numbered) = Some 0"
    unfolding l2 by (simp add: header_phrase_def)
  have s2: "strip sample_numbered = sample_numbered"
    by (simp add: strip_def sample_numbered_def isspace_def space_ranges_def)
  have d2: "list_ex isdigit sample_numbered"
    by (simp add: sample_numbered_def isdigit_def digit_ranges_def)
  have c2: "\<forall>c \<in> set (map strip (take 2 (drop (Suc 0) (split_on 0x0A sample_card_numbered)))).
      list_ex isdigit c"
    by (simp add: l2 s2 d2)
  from extract_full_name_candidates[of sample_card_numbered 0] i2 c2
  have r2: "extract_full_name sample_card_numbered = None"
    by blast
  have l3: "split_on 0x0A (u ''Name: Ali'') = [u ''Name: Ali'']" by (simp add: u_def)
  have n3: "\<forall>line \<in> set (split_on 0x0A (u ''Name: Ali'')). \<not> contains header_phrase line"
    unfolding l3 by (simp add: u_def header_phrase_def)
  from extract_full_name_candidates[of "u ''Name: Ali''" 0] n3
  have r3: "extract_full_name (u ''Name: Ali'') = None" by blast
  from r1 acc d2 r2 r3 show ?thesis by simp
qed

section \<open>The first strategy\<close>

text \<open>
  A text \<open>m\<close> between \<open>pre\<close> and \<open>post\<close> stands between word boundaries when the character
  before it, if there is one, and the character after it, if there is one, are not word
  characters (\<^verbatim>\<open>\w\<close>: letters, digits and the underscore), given that \<open>m\<close> itself begins
  and ends with a word character.
\<close>

definition word_bounded :: "ustring \<Rightarrow> ustring \<Rightarrow> bool" where
  "word_bounded pre post = ((pre = [] \<or> \<not> isword (last pre)) \<and> (post = [] \<or> \<not> isword (hd post)))"

lemma at_boundary_before:
  "rest \<noteq> [] \<Longrightarrow> isword (hd rest) \<Longrightarrow>
     at_boundary (prev_after None pre) rest \<longleftrightarrow> (pre = [] \<or> \<not> isword (last pre))"
  by (cases rest) (auto simp: at_boundary_def prev_after_def)

lemma at_boundary_after:
  "isword c \<Longrightarrow> at_boundary (Some c) post \<longleftrightarrow> (post = [] \<or> \<not> isword (hd post))"
  by (cases post) (auto simp: at_boundary_def)

lemma id_shaped_words:
  assumes "id_shaped m"
  shows "m \<noteq> []" "isword (hd m)" "isword (last m)"
proof -
  from assms show ne: "m \<noteq> []" by (auto simp: id_shaped_def)
  from assms have "\<forall>c \<in> set m. isdecimal c" by (simp add: id_shaped_def list_all_iff)
  with ne show "isword (hd m)" "isword (last m)" by (auto intro: isdecimal_isword)
qed

lemma ends_bounded_id_at:
  "ends bounded_id_pattern (prev_after None pre, rest) =
     (if id_shaped (take 14 rest) \<and> word_bounded pre (drop 14 rest)
      then [advance (prev_after None pre, rest) 14] else [])"
proof (cases "id_shaped (take 14 rest)")
  case False
  then show ?thesis by (simp add: ends_bounded_id_pattern)
next
  case True
  from id_shaped_length[OF True] have len: "14 \<le> length rest" .
  from id_shaped_words[OF True] have w: "rest \<noteq> []" "isword (hd rest)" "isword (last (take 14 rest))"
    by (auto simp: hd_take)
  have f: "fst (advance (prev_after None pre, rest) 14) = Some (last (take 14 rest))"
    using fst_advance[of 14 "(prev_after None pre, rest)"] len by simp
  show ?thesis
    using True at_boundary_before[OF w(1,2), of pre] at_boundary_after[OF w(3), of "drop 14 rest"]
    by (simp add: ends_bounded_id_pattern f word_bounded_def)
qed

text \<open>
  C2, as the code has it. The first strategy returns the first run of exactly 14
  decimal digits of the date-stripped text whose first digit is 2 or 3 and that stands
  between word boundaries: neither a letter, nor a digit, nor an underscore is next to
  it. Whenever there is such a run, it is what \<^verbatim>\<open>extract_national_id\<close> returns.
\<close>

theorem first_strategy_standalone:
  assumes "text \<noteq> []"
    and "re_sub date_pattern [] (normalize_digits text) = pre @ m @ post"
    and "id_shaped m" and "word_bounded pre post"
    and "\<forall>pre' m' post'. pre @ m @ post = pre' @ m' @ post' \<and> id_shaped m' \<and> word_bounded pre' post'
           \<longrightarrow> length pre \<le> length pre'"
  shows "extract_national_id text = Some m"
proof -
  let ?s = "pre @ m @ post"
  from assms(3) have lm: "length m = 14" by (simp add: id_shaped_def)
  then have t: "take 14 (m @ post) = m" "drop 14 (m @ post) = post" by simp_all
  have e: "ends bounded_id_pattern (prev_after None pre, m @ post) = [advance (prev_after None pre, m @ post) 14]"
    by (simp only: ends_bounded_id_at t assms(3,4) simp_thms if_True)
  have n: "ends bounded_id_pattern (prev_after None (take k pre), drop k (pre @ (m @ post))) = []"
    if k: "k < length pre" for k
  proof (rule ccontr)
    assume "ends bounded_id_pattern (prev_after None (take k pre), drop k (pre @ (m @ post))) \<noteq> []"
    then have i: "id_shaped (take 14 (drop k ?s))" "word_bounded (take k pre) (drop 14 (drop k ?s))"
      by (auto simp: ends_bounded_id_at split: if_splits)
    have "take k ?s = take k pre" using k by simp
    then have "?s = take k pre @ drop k ?s" by (metis append_take_drop_id)
    also have "drop k ?s = take 14 (drop k ?s) @ drop 14 (drop k ?s)"
      by (rule append_take_drop_id[symmetric])
    finally have "?s = take k pre @ take 14 (drop k ?s) @ drop 14 (drop k ?s)" .
    with assms(5) i have "length pre \<le> length (take k pre)" by blast
    with k show False by simp
  qed
  have "search_from bounded_id_pattern None (pre @ (m @ post)) =
      Some (pre, matched (m @ post) (advance (prev_after None pre, m @ post) 14),
            advance (prev_after None pre, m @ post) 14)"
    by (rule search_from_first[OF e]) (use n in simp)
  moreover have "matched (m @ post) (advance (prev_after None pre, m @ post) 14) = m"
    using lm by (simp add: matched_def)
  ultimately have "re_search bounded_id_pattern (pre @ m @ post) = Some m"
    by (simp add: re_search_def)
  with assms(1,2) show ?thesis by (simp add: extract_national_id_def Let_def)
qed

theorem first_strategy_standalone_witness:
  "re_sub date_pattern [] (normalize_digits (u ''29901011234567 or 2990101 1234567''))
     = [] @ u ''29901011234567'' @ u '' or 2990101 1234567''
   \<and> id_shaped (u ''29901011234567'')
   \<and> word_bounded [] (u '' or 2990101 1234567'')
   \<and> extract_national_id (u ''29901011234567 or 2990101 1234567'') = Some (u ''29901011234567'')"
proof -
  have n: "u ''29901011234567 or 2990101 1234567'' \<noteq> []" by (simp add: u_def)
  have s: "re_sub date_pattern [] (normalize_digits (u ''29901011234567 or 2990101 1234567''))
      = [] @ u ''29901011234567'' @ u '' or 2990101 1234567''"
    by (simp add: id_eval)
  have i: "id_shaped (u ''29901011234567'')" by (simp add: id_shaped_def u_def isdecimal_ascii)
  have w: "word_bounded [] (u '' or 2990101 1234567'')"
    by (simp add: word_bounded_def u_def isword_ascii)
  have f: "\<forall>pre' m' post'. [] @ u ''29901011234567'' @ u '' or 2990101 1234567'' = pre' @ m' @ post'
      \<and> id_shaped m' \<and> word_bounded pre' post' \<longrightarrow> length ([] :: ustring) \<le> length pre'"
    by simp
  from first_strategy_standalone[OF n s i w f] s i w show ?thesis by simp
qed

text \<open>
  The claim as stated fails: between two letters the run is bounded by non-digit
  characters on both sides, and yet it is not found, by this strategy or by any other.
\<close>

theorem first_strategy_letters_counterexample:
  "re_sub date_pattern [] (normalize_digits (u ''x29901011234567y''))
     = u ''x'' @ u ''29901011234567'' @ u ''y''
   \<and> id_shaped (u ''29901011234567'')
   \<and> \<not> isdecimal (last (u ''x'')) \<and> \<not> isdecimal (hd (u ''y''))
   \<and> extract_national_id (u ''x29901011234567y'') = None"
  by (simp add: id_eval id_shaped_def isdecimal_ascii)

section \<open>Date stripping\<close>

lemma advance_advance:
  "a \<le> length (snd p) \<Longrightarrow> advance (advance p a) b = advance p (a + b)"
  by (cases b) (auto simp: advance_def nth_append add.commute)

lemma concat_map_concat: "concat (map f (concat xss)) = concat (map (\<lambda>xs. concat (map f xs)) xss)"
  by (induction xss) simp_all

lemma ends_Then_assoc: "ends (Then (Then a b) c) p = ends (Then a (Then b c)) p"
proof -
  have "ends (Then b c) = (\<lambda>x. concat (map (ends c) (ends b x)))"
    by (rule ext) simp
  then show ?thesis by (simp add: concat_map_concat o_def)
qed

lemma ends_Set_advance:
  "a \<le> length (snd p) \<Longrightarrow>
   ends (Set cs) (advance p a) =
     (if a < length (snd p) \<and> list_ex (\<lambda>k. cmatch k (snd p ! a)) cs then [advance p (Suc a)] else [])"
proof -
  assume a: "a \<le> length (snd p)"
  show ?thesis
  proof (cases "a < length (snd p)")
    case False
    with a have "drop a (snd p) = []" by simp
    then have "ends (Set cs) (advance p a) = []" by (simp add: advance_def)
    with False show ?thesis by simp
  next
    case True
    then have d: "drop a (snd p) = snd p ! a # drop (Suc a) (snd p)"
      by (simp add: Cons_nth_drop_Suc)
    have "advance p (Suc a) = (Some (snd p ! a), drop (Suc a) (snd p))" by (simp add: advance_def)
    with True d show ?thesis by (simp add: advance_def)
  qed
qed

lemma rep_ends_atom_advance:
  "a \<le> length (snd p) \<Longrightarrow>
   rep_ends (ends (Set cs)) m n (advance p a) =
     map (\<lambda>k. advance p (a + k)) (rev [m..<Suc (min n (run cs (drop a (snd p))))])"
proof -
  assume a: "a \<le> length (snd p)"
  obtain pv r where q: "advance p a = (pv, r)" by (cases "advance p a")
  then have r: "r = drop a (snd p)" by (metis snd_advance snd_conv)
  have "rep_ends (ends (Set cs)) m n (pv, r) = map (advance (pv, r)) (rev [m..<Suc (min n (run cs r))])"
    by (rule rep_ends_atom)
  also have "map (advance (pv, r)) xs = map (\<lambda>k. advance p (a + k)) xs" for xs
    using advance_advance[OF a] q by simp
  finally show ?thesis using q r by simp
qed

text \<open>
  A date token in the words of the specification: four digits, a slash, one or two
  digits and, optionally, a slash and one or two digits, as a whole token, that is,
  between word boundaries. \<open>date_token_length prev rest\<close> is the length of the date token
  that starts at the cursor \<open>(prev, rest)\<close>, the longer one if there are two, and \<open>0\<close> if
  there is none. \<open>dc r\<close> counts the decimal digits at the start of \<open>r\<close>.
\<close>

definition dc :: "ustring \<Rightarrow> nat" where
  "dc r = length (takeWhile isdecimal r)"

definition starts_slash :: "ustring \<Rightarrow> bool" where
  "starts_slash r = (case r of [] \<Rightarrow> False | c # _ \<Rightarrow> c = 0x2F)"

definition end_boundary :: "ustring \<Rightarrow> bool" where
  "end_boundary r = (case r of [] \<Rightarrow> True | c # _ \<Rightarrow> \<not> isword c)"

definition start_boundary :: "nat option \<Rightarrow> bool" where
  "start_boundary prev = (case prev of None \<Rightarrow> True | Some c \<Rightarrow> \<not> isword c)"

definition date_token_length :: "nat option \<Rightarrow> ustring \<Rightarrow> nat" where
  "date_token_length prev rest =
     (let mo = dc (drop 5 rest); d = dc (drop (6 + mo) rest) in
      if start_boundary prev \<and> 4 \<le> dc rest \<and> starts_slash (drop 4 rest) \<and> (mo = 1 \<or> mo = 2)
      then (if starts_slash (drop (5 + mo) rest) \<and> (d = 1 \<or> d = 2) \<and> end_boundary (drop (6 + mo + d) rest)
            then 6 + mo + d
            else if end_boundary (drop (5 + mo) rest) then 5 + mo else 0)
      else 0)"

lemma run_Digit: "run [Digit] r = dc r"
  by (simp add: run_def dc_def)

lemma dc_le: "dc r \<le> length r"
  by (simp add: dc_def length_takeWhile_le)

lemma dc_nth: "k < dc r \<Longrightarrow> isdecimal (r ! k)"
proof -
  assume k: "k < dc r"
  then have "takeWhile isdecimal r ! k \<in> set (takeWhile isdecimal r)" by (simp add: dc_def)
  then have "isdecimal (takeWhile isdecimal r ! k)" by (auto dest: set_takeWhileD)
  with k show ?thesis by (simp add: dc_def takeWhile_nth)
qed

lemma dc_drop_nth: "k < dc (drop a r) \<Longrightarrow> isdecimal (r ! (a + k)) \<and> a + k < length r"
proof -
  assume k: "k < dc (drop a r)"
  with dc_le[of "drop a r"] have l: "a + k < length r" by simp
  from dc_nth[OF k] l show ?thesis by simp
qed

lemma not_decimal_slash: "\<not> isdecimal 0x2F"
  by (simp add: isdecimal_ascii)

lemma not_word_slash: "\<not> isword 0x2F"
  by (simp add: isword_ascii)

lemma ends_Boundary_advance:
  assumes "0 < c" "c \<le> length rest" "isword (rest ! (c - 1))"
  shows "ends Boundary (advance (prev, rest) c) =
           (if end_boundary (drop c rest) then [advance (prev, rest) c] else [])"
proof -
  from assms(1) have a: "advance (prev, rest) c = (Some (rest ! (c - 1)), drop c rest)"
    by (simp add: advance_def)
  show ?thesis
    unfolding a using assms(3)
    by (cases "drop c rest") (simp_all add: at_boundary_def end_boundary_def)
qed

text \<open>One or two digits from position \<open>a\<close> on, followed by something that cannot start between two digits.\<close>

lemma one_or_two_digits:
  assumes a: "a \<le> length rest"
    and x: "\<And>k. 0 < k \<Longrightarrow> k < dc (drop a rest) \<Longrightarrow> ends X (advance (prev, rest) (a + k)) = []"
  shows "ends (Then (Rep 1 2 (Set [Digit])) X) (advance (prev, rest) a) =
           (if dc (drop a rest) = 1 \<or> dc (drop a rest) = 2
            then ends X (advance (prev, rest) (a + dc (drop a rest))) else [])"
proof -
  let ?n = "dc (drop a rest)"
  have r: "rep_ends (ends (Set [Digit])) (Suc 0) 2 (advance (prev, rest) a) =
      map (\<lambda>k. advance (prev, rest) (a + k)) (rev [1..<Suc (min 2 ?n)])"
    using rep_ends_atom_advance[of a "(prev, rest)" "[Digit]" 1 2] a by (simp add: run_Digit)
  consider "?n = 0" | "?n = 1" | "?n = 2" | "3 \<le> ?n" by linarith
  then show ?thesis
  proof cases
    case 1
    then have "rep_ends (ends (Set [Digit])) (Suc 0) 2 (advance (prev, rest) a) = []"
      unfolding r by simp
    with 1 show ?thesis by simp
  next
    case 2
    then have "rep_ends (ends (Set [Digit])) (Suc 0) 2 (advance (prev, rest) a) =
        [advance (prev, rest) (a + 1)]"
      unfolding r by simp
    with 2 show ?thesis by simp
  next
    case 3
    then have "rep_ends (ends (Set [Digit])) (Suc 0) 2 (advance (prev, rest) a) =
        [advance (prev, rest) (a + 2), advance (prev, rest) (a + 1)]"
      unfolding r by (simp add: upt_rec)
    moreover from x[of 1] 3 have "ends X (advance (prev, rest) (a + 1)) = []" by simp
    ultimately show ?thesis using 3 by simp
  next
    case 4
    then have "rep_ends (ends (Set [Digit])) (Suc 0) 2 (advance (prev, rest) a) =
        [advance (prev, rest) (a + 2), advance (prev, rest) (a + 1)]"
      unfolding r by (simp add: upt_rec min_def)
    moreover from x[of 1] x[of 2] 4 have "ends X (advance (prev, rest) (a + 1)) = []"
      "ends X (advance (prev, rest) (a + 2)) = []" by simp_all
    ultimately show ?thesis using 4 by simp
  qed
qed

lemma boundary_between_digits:
  assumes "0 < k" "k < dc (drop a rest)"
  shows "ends Boundary (advance (prev, rest) (a + k)) = []"
proof -
  from assms dc_drop_nth[of k a rest] dc_drop_nth[of "k - 1" a rest]
  have d: "isdecimal (rest ! (a + k))" "a + k < length rest" "isdecimal (rest ! (a + k - 1))"
    by auto
  then have w: "isword (rest ! (a + k))" "isword (rest ! (a + k - 1))"
    by (auto intro: isdecimal_isword)
  from d(2) have "drop (a + k) rest = rest ! (a + k) # drop (Suc (a + k)) rest"
    by (simp add: Cons_nth_drop_Suc)
  with w(1) have "\<not> end_boundary (drop (a + k) rest)" by (simp add: end_boundary_def)
  with ends_Boundary_advance[of "a + k" rest prev] assms(1) d(2) w(2) show ?thesis by simp
qed

lemma starts_slash_drop: "starts_slash (drop b rest) \<longleftrightarrow> b < length rest \<and> rest ! b = 0x2F"
proof (cases "b < length rest")
  case True
  then have "drop b rest = rest ! b # drop (Suc b) rest" by (simp add: Cons_nth_drop_Suc)
  with True show ?thesis by (simp add: starts_slash_def)
next
  case False
  then show ?thesis by (simp add: starts_slash_def)
qed

lemma end_boundary_drop: "end_boundary (drop b rest) \<longleftrightarrow> (b < length rest \<longrightarrow> \<not> isword (rest ! b))"
proof (cases "b < length rest")
  case True
  then have "drop b rest = rest ! b # drop (Suc b) rest" by (simp add: Cons_nth_drop_Suc)
  with True show ?thesis by (simp add: end_boundary_def)
next
  case False
  then show ?thesis by (simp add: end_boundary_def)
qed

definition day_pattern :: regex where
  "day_pattern = Then (Rep 1 2 (Set [Digit])) Boundary"

definition group_pattern :: regex where
  "group_pattern = Then (Set [Chr 0x2F]) (Rep 1 2 (Set [Digit]))"

definition tail_pattern :: regex where
  "tail_pattern = Then (Rep 0 1 group_pattern) Boundary"

lemma ends_day_pattern:
  assumes b: "b \<le> length rest"
  shows "ends day_pattern (advance (prev, rest) b) =
           (if (dc (drop b rest) = 1 \<or> dc (drop b rest) = 2)
               \<and> end_boundary (drop (b + dc (drop b rest)) rest)
            then [advance (prev, rest) (b + dc (drop b rest))] else [])"
proof -
  let ?d = "dc (drop b rest)"
  have o: "ends day_pattern (advance (prev, rest) b) =
      (if ?d = 1 \<or> ?d = 2 then ends Boundary (advance (prev, rest) (b + ?d)) else [])"
    unfolding day_pattern_def
    by (rule one_or_two_digits[OF b]) (rule boundary_between_digits)
  show ?thesis
  proof (cases "?d = 1 \<or> ?d = 2")
    case False
    with o show ?thesis by simp
  next
    case True
    then have pos: "0 < b + ?d" by auto
    from dc_le[of "drop b rest"] b have le: "b + ?d \<le> length rest" by simp
    from True have "?d - 1 < ?d" by auto
    from dc_drop_nth[OF this] True have "isdecimal (rest ! (b + ?d - 1))" by auto
    then have "isword (rest ! (b + ?d - 1))" by (rule isdecimal_isword)
    from ends_Boundary_advance[OF pos le this, of prev] o True show ?thesis by simp
  qed
qed

lemma rep_ends_optional: "rep_ends f 0 1 q = f q @ [q]"
proof -
  have "rep_ends f 0 (Suc 0) q = concat (map (\<lambda>x. [x]) (f q)) @ [q]"
    by (simp add: fun_eq_iff cong: map_cong)
  then show ?thesis by simp
qed

lemma ends_tail_pattern:
  assumes b: "0 < b" "b \<le> length rest" "isword (rest ! (b - 1))"
  shows "ends tail_pattern (advance (prev, rest) b) =
           (if starts_slash (drop b rest) then ends day_pattern (advance (prev, rest) (Suc b)) else [])
           @ (if end_boundary (drop b rest) then [advance (prev, rest) b] else [])"
proof -
  let ?q = "advance (prev, rest) b"
  have "ends tail_pattern ?q =
      concat (map (ends Boundary) (ends group_pattern ?q)) @ ends Boundary ?q"
    by (simp add: tail_pattern_def rep_ends_optional del: One_nat_def)
  also have "concat (map (ends Boundary) (ends group_pattern ?q)) =
      ends (Then group_pattern Boundary) ?q" by simp
  also have "\<dots> = ends (Then (Set [Chr 0x2F]) day_pattern) ?q"
    unfolding group_pattern_def day_pattern_def by (rule ends_Then_assoc)
  also have "\<dots> = (if starts_slash (drop b rest) then ends day_pattern (advance (prev, rest) (Suc b)) else [])"
    using ends_Set_advance[of b "(prev, rest)" "[Chr 0x2F]"] b(2)
    by (auto simp: starts_slash_drop)
  also have "ends Boundary ?q = (if end_boundary (drop b rest) then [?q] else [])"
    by (rule ends_Boundary_advance[OF b])
  finally show ?thesis .
qed

lemma tail_between_digits:
  assumes "0 < k" "k < dc (drop a rest)"
  shows "ends tail_pattern (advance (prev, rest) (a + k)) = []"
proof -
  from assms dc_drop_nth[of k a rest] dc_drop_nth[of "k - 1" a rest]
  have d: "isdecimal (rest ! (a + k))" "a + k < length rest" "isdecimal (rest ! (a + k - 1))"
    by auto
  then have w: "isword (rest ! (a + k))" "isword (rest ! (a + k - 1))"
    by (auto intro: isdecimal_isword)
  from d(1) not_decimal_slash have "rest ! (a + k) \<noteq> 0x2F" by auto
  then have s: "\<not> starts_slash (drop (a + k) rest)" by (simp add: starts_slash_drop)
  from w(1) d(2) have e: "\<not> end_boundary (drop (a + k) rest)" by (simp add: end_boundary_drop)
  from assms(1) have "0 < a + k" by simp
  from ends_tail_pattern[OF this _ w(2), of prev] d(2) s e show ?thesis by simp
qed

lemma date_pattern_unfold:
  "date_pattern =
     Then Boundary (Then (Rep 4 4 (Set [Digit]))
       (Then (Set [Chr 0x2F]) (Then (Rep 1 2 (Set [Digit])) tail_pattern)))"
  by (simp add: date_pattern_def tail_pattern_def group_pattern_def)

lemma at_boundary_start:
  "rest \<noteq> [] \<Longrightarrow> isword (hd rest) \<Longrightarrow> at_boundary prev rest = start_boundary prev"
  by (cases rest; cases prev) (simp_all add: at_boundary_def start_boundary_def)

lemma ends_date_pattern:
  "ends date_pattern (prev, rest) =
     (let mo = dc (drop 5 rest); d = dc (drop (6 + mo) rest) in
      if start_boundary prev \<and> 4 \<le> dc rest \<and> starts_slash (drop 4 rest) \<and> (mo = 1 \<or> mo = 2)
      then (if starts_slash (drop (5 + mo) rest) \<and> (d = 1 \<or> d = 2) \<and> end_boundary (drop (6 + mo + d) rest)
            then [advance (prev, rest) (6 + mo + d)] else [])
           @ (if end_boundary (drop (5 + mo) rest) then [advance (prev, rest) (5 + mo)] else [])
      else [])"
proof -
  let ?p = "(prev, rest)"
  let ?mo = "dc (drop 5 rest)"
  let ?d = "dc (drop (6 + ?mo) rest)"
  let ?R3 = "Then (Rep 1 2 (Set [Digit])) tail_pattern"
  let ?R2 = "Then (Set [Chr 0x2F]) ?R3"
  have four: "ends (Then (Rep 4 4 (Set [Digit])) ?R2) ?p =
      (if 4 \<le> dc rest then ends ?R2 (advance ?p 4) else [])"
    by (simp add: rep_exact_atom run_Digit)
  have top: "ends date_pattern ?p =
      (if at_boundary prev rest then ends (Then (Rep 4 4 (Set [Digit])) ?R2) ?p else [])"
    unfolding date_pattern_unfold by simp
  show ?thesis
  proof (cases "4 \<le> dc rest")
    case False
    with top four show ?thesis by (simp add: Let_def)
  next
    case True
    with dc_le[of rest] have len4: "4 \<le> length rest" by simp
    then have ne: "rest \<noteq> []" by auto
    from True have "0 < dc rest" by simp
    from dc_nth[OF this] ne have "isword (hd rest)" by (simp add: hd_conv_nth isdecimal_isword)
    from at_boundary_start[OF ne this] top four True
    have t: "ends date_pattern ?p = (if start_boundary prev then ends ?R2 (advance ?p 4) else [])"
      by simp
    have slash: "ends ?R2 (advance ?p 4) =
        (if starts_slash (drop 4 rest) then ends ?R3 (advance ?p 5) else [])"
      using ends_Set_advance[of 4 ?p "[Chr 0x2F]"] len4 by (auto simp: starts_slash_drop)
    show ?thesis
    proof (cases "starts_slash (drop 4 rest)")
      case False
      with t slash show ?thesis by (simp add: Let_def)
    next
      case True
      then have len5: "5 \<le> length rest" by (simp add: starts_slash_drop)
      have month: "ends ?R3 (advance ?p 5) =
          (if ?mo = 1 \<or> ?mo = 2 then ends tail_pattern (advance ?p (5 + ?mo)) else [])"
        by (rule one_or_two_digits[OF len5]) (rule tail_between_digits)
      show ?thesis
      proof (cases "?mo = 1 \<or> ?mo = 2")
        case False
        with t slash True month \<open>4 \<le> dc rest\<close> show ?thesis by (simp add: Let_def)
      next
        case mo: True
        then have pos: "0 < 5 + ?mo" by simp
        from dc_le[of "drop 5 rest"] len5 have le: "5 + ?mo \<le> length rest" by simp
        from mo have "?mo - 1 < ?mo" by auto
        from dc_drop_nth[OF this] mo have "isdecimal (rest ! (5 + ?mo - 1))" by auto
        then have w: "isword (rest ! (5 + ?mo - 1))" by (rule isdecimal_isword)
        have tail: "ends tail_pattern (advance ?p (5 + ?mo)) =
            (if starts_slash (drop (5 + ?mo) rest) then ends day_pattern (advance ?p (6 + ?mo)) else [])
            @ (if end_boundary (drop (5 + ?mo) rest) then [advance ?p (5 + ?mo)] else [])"
          using ends_tail_pattern[OF pos le w, of prev] by simp
        have day: "ends day_pattern (advance ?p (6 + ?mo)) =
            (if (?d = 1 \<or> ?d = 2) \<and> end_boundary (drop (6 + ?mo + ?d) rest)
             then [advance ?p (6 + ?mo + ?d)] else [])"
          if "starts_slash (drop (5 + ?mo) rest)"
        proof -
          from that have "6 + ?mo \<le> length rest" by (simp add: starts_slash_drop)
          from ends_day_pattern[OF this, of prev] show ?thesis by simp
        qed
        from t slash True month mo tail day \<open>4 \<le> dc rest\<close> show ?thesis
          by (simp add: Let_def)
      qed
    qed
  qed
qed

lemma date_ends_Nil: "ends date_pattern (prev, rest) = [] \<longleftrightarrow> date_token_length prev rest = 0"
  by (auto simp: ends_date_pattern date_token_length_def Let_def)

lemma date_ends_hd:
  "0 < date_token_length prev rest \<Longrightarrow>
     \<exists>es. ends date_pattern (prev, rest) = advance (prev, rest) (date_token_length prev rest) # es"
  by (auto simp: ends_date_pattern date_token_length_def Let_def split: if_splits)

lemma date_token_length_le: "date_token_length prev rest \<le> length rest"
proof (cases "date_token_length prev rest = 0")
  case True
  then show ?thesis by simp
next
  case False
  then obtain es where e: "ends date_pattern (prev, rest) = advance (prev, rest) (date_token_length prev rest) # es"
    using date_ends_hd by blast
  let ?L = "date_token_length prev rest"
  let ?mo = "dc (drop 5 rest)"
  let ?d = "dc (drop (6 + ?mo) rest)"
  from False have c: "4 \<le> dc rest" "starts_slash (drop 4 rest)" "?mo = 1 \<or> ?mo = 2"
    by (auto simp: date_token_length_def Let_def split: if_splits)
  from c(2) have l5: "5 \<le> length rest" by (simp add: starts_slash_drop)
  from dc_le[of "drop 5 rest"] l5 have a: "5 + ?mo \<le> length rest" by simp
  show ?thesis
  proof (cases "?L = 5 + ?mo")
    case True
    with a show ?thesis by simp
  next
    case F: False
    with False have s: "starts_slash (drop (5 + ?mo) rest)" "?L = 6 + ?mo + ?d"
      by (auto simp: date_token_length_def Let_def split: if_splits)
    from s(1) have "6 + ?mo \<le> length rest" by (simp add: starts_slash_drop)
    with dc_le[of "drop (6 + ?mo) rest"] s(2) show ?thesis by simp
  qed
qed

text \<open>No date token starts inside another one.\<close>

lemma no_token_inside_token:
  assumes i: "0 < i" "i < date_token_length prev rest"
  shows "date_token_length (Some (rest ! (i - 1))) (drop i rest) = 0"
proof (rule ccontr)
  let ?L = "date_token_length prev rest"
  let ?mo = "dc (drop 5 rest)"
  let ?d = "dc (drop (6 + ?mo) rest)"
  assume "date_token_length (Some (rest ! (i - 1))) (drop i rest) \<noteq> 0"
  then have n: "\<not> isword (rest ! (i - 1))" "4 \<le> dc (drop i rest)"
    by (auto simp: date_token_length_def Let_def start_boundary_def split: if_splits)
  from i have c: "4 \<le> dc rest" "?mo = 1 \<or> ?mo = 2"
    by (auto simp: date_token_length_def Let_def split: if_splits)
  from i have L: "?L = 5 + ?mo \<or> (?L = 6 + ?mo + ?d \<and> (?d = 1 \<or> ?d = 2))"
    by (auto simp: date_token_length_def Let_def split: if_splits)
  have nd: "\<not> isdecimal (rest ! (i - 1))" using n(1) isdecimal_isword by blast
  consider "i - 1 < 4" | "i = 5" | "5 \<le> i - 1 \<and> i - 1 < 5 + ?mo" | "i = 6 + ?mo" | "6 + ?mo \<le> i - 1"
    using i(1) by linarith
  then show False
  proof cases
    case 1
    with c(1) have "i - 1 < dc rest" by simp
    from dc_nth[OF this] nd show False by simp
  next
    case 2
    with n(2) c(2) show False by auto
  next
    case 3
    define j where "j = i - 1 - 5"
    from 3 have j: "j < ?mo" "i - 1 = 5 + j" unfolding j_def by arith+
    from dc_drop_nth[OF j(1)] nd show False unfolding j(2) by simp
  next
    case 4
    with L i(2) have "?d = 1 \<or> ?d = 2" by auto
    with n(2) 4 show False by auto
  next
    case 5
    with L i(2) have l: "?L = 6 + ?mo + ?d" by auto
    define j where "j = i - 1 - (6 + ?mo)"
    from l 5 i(2) have j: "j < ?d" "i - 1 = 6 + ?mo + j" unfolding j_def by arith+
    from dc_drop_nth[OF j(1)] nd show False unfolding j(2) by simp
  qed
qed

text \<open>
  \<open>token_at s k\<close> is the length of the date token of \<open>s\<close> that starts at index \<open>k\<close>
  (\<open>0\<close>: none starts there), and index \<open>j\<close> lies in a date token when some token that starts
  at or before \<open>j\<close> reaches beyond \<open>j\<close>. \<open>date_stripped s\<close> keeps the characters of \<open>s\<close>
  that lie in no date token.
\<close>

definition token_at :: "ustring \<Rightarrow> nat \<Rightarrow> nat" where
  "token_at s k = date_token_length (prev_after None (take k s)) (drop k s)"

definition in_date_token :: "ustring \<Rightarrow> nat \<Rightarrow> bool" where
  "in_date_token s j = (\<exists>k \<le> j. j < k + token_at s k)"

definition date_stripped :: "ustring \<Rightarrow> ustring" where
  "date_stripped s = map (nth s) (filter (\<lambda>j. \<not> in_date_token s j) [0..<length s])"

lemma prev_after_take_Suc: "k < length s \<Longrightarrow> prev_after None (take (Suc k) s) = Some (s ! k)"
  by (simp add: prev_after_def take_Suc_conv_app_nth)

lemma date_token_length_Nil: "date_token_length prev [] = 0"
  by (simp add: date_token_length_def dc_def)

lemma strip_from:
  assumes "k \<le> length s" and "\<forall>k' < k. k' + token_at s k' \<le> k"
  shows "concat (map (sub_piece []) (pieces date_pattern (prev_after None (take k s)) (drop k s)))
           = map (nth s) (filter (\<lambda>j. \<not> in_date_token s j) [k..<length s])"
  using assms
proof (induction "length s - k" arbitrary: k rule: less_induct)
  case less
  let ?prev = "prev_after None (take k s)"
  show ?case
  proof (cases "k = length s")
    case True
    then have "ends date_pattern (?prev, drop k s) = []"
      by (simp add: date_ends_Nil date_token_length_Nil)
    with True show ?thesis by (simp add: pieces_Nil)
  next
    case False
    with less.prems(1) have k: "k < length s" by simp
    then have d: "drop k s = s ! k # drop (Suc k) s" by (simp add: Cons_nth_drop_Suc)
    have up: "[k..<length s] = k # [Suc k..<length s]" using k by (simp add: upt_conv_Cons)
    show ?thesis
    proof (cases "token_at s k = 0")
      case True
      then have e: "ends date_pattern (?prev, s ! k # drop (Suc k) s) = []"
        using d by (simp add: date_ends_Nil token_at_def)
      have inv: "\<forall>k' < Suc k. k' + token_at s k' \<le> Suc k"
      proof (intro allI impI)
        fix k' assume "k' < Suc k"
        then consider "k' < k" | "k' = k" by linarith
        then show "k' + token_at s k' \<le> Suc k"
          using less.prems(2) True by cases auto
      qed
      have nk: "\<not> in_date_token s k"
      proof
        assume "in_date_token s k"
        then obtain k' where k': "k' \<le> k" "k < k' + token_at s k'" by (auto simp: in_date_token_def)
        then consider "k' < k" | "k' = k" by linarith
        then show False using k' less.prems(2) True by cases auto
      qed
      have "concat (map (sub_piece []) (pieces date_pattern ?prev (drop k s))) =
          s ! k # concat (map (sub_piece []) (pieces date_pattern (Some (s ! k)) (drop (Suc k) s)))"
        unfolding d by (rule sub_skip[OF e])
      also have "Some (s ! k) = prev_after None (take (Suc k) s)"
        using k by (simp add: prev_after_take_Suc)
      also have "concat (map (sub_piece []) (pieces date_pattern (prev_after None (take (Suc k) s)) (drop (Suc k) s)))
          = map (nth s) (filter (\<lambda>j. \<not> in_date_token s j) [Suc k..<length s])"
        using k inv by (intro less.hyps) auto
      finally show ?thesis using nk by (simp add: up)
    next
      case False
      let ?L = "token_at s k"
      from False have pos: "0 < ?L" by simp
      from date_token_length_le[of ?prev "drop k s"] have le: "k + ?L \<le> length s"
        using k by (simp add: token_at_def)
      from date_ends_hd[of ?prev "drop k s"] pos obtain es where
        e: "ends date_pattern (?prev, drop k s) = advance (?prev, drop k s) ?L # es"
        by (auto simp: token_at_def)
      have m: "matched (drop k s) (advance (?prev, drop k s) ?L) = take ?L (drop k s)"
        using le by (simp add: matched_def)
      have mne: "take ?L (drop k s) \<noteq> []" using pos k by simp
      have f: "fst (advance (?prev, drop k s) ?L) = prev_after None (take (k + ?L) s)"
      proof -
        have "fst (advance (?prev, drop k s) ?L) = Some (drop k s ! (?L - 1))"
          using pos by (simp add: advance_def)
        also have "drop k s ! (?L - 1) = s ! (k + ?L - 1)" using pos le by simp
        also have "Some (s ! (k + ?L - 1)) = prev_after None (take (Suc (k + ?L - 1)) s)"
          using pos le by (intro prev_after_take_Suc[symmetric]) simp
        finally show ?thesis using pos by simp
      qed
      have inv: "\<forall>k' < k + ?L. k' + token_at s k' \<le> k + ?L"
      proof (intro allI impI)
        fix k' assume a: "k' < k + ?L"
        consider "k' < k" | "k' = k" | "k < k'" by linarith
        then show "k' + token_at s k' \<le> k + ?L"
        proof cases
          case 1
          with less.prems(2) show ?thesis by fastforce
        next
          case 2
          then show ?thesis by simp
        next
          case 3
          let ?i = "k' - k"
          from 3 a have i: "0 < ?i" "?i < date_token_length ?prev (drop k s)"
            by (simp_all add: token_at_def)
          from 3 a le have k'l: "k' < length s" by simp
          have "prev_after None (take k' s) = Some (s ! (k' - 1))"
            using prev_after_take_Suc[of "k' - 1" s] 3 k'l by simp
          also have "s ! (k' - 1) = drop k s ! (?i - 1)" using 3 k'l by simp
          finally have "token_at s k' = date_token_length (Some (drop k s ! (?i - 1))) (drop ?i (drop k s))"
            using 3 by (simp add: token_at_def)
          with no_token_inside_token[OF i] have "token_at s k' = 0" by simp
          with a show ?thesis by simp
        qed
      qed
      have cov: "filter (\<lambda>j. \<not> in_date_token s j) [k..<k + ?L] = []"
        by (auto simp: filter_empty_conv in_date_token_def intro: exI[of _ k])
      have split: "[k..<length s] = [k..<k + ?L] @ [k + ?L..<length s]"
        using le by (metis le_add1 upt_add_eq_append le_Suc_ex)
      have "concat (map (sub_piece []) (pieces date_pattern ?prev (drop k s))) =
          concat (map (sub_piece []) (pieces date_pattern (prev_after None (take (k + ?L) s)) (drop (k + ?L) s)))"
        using mne by (simp add: pieces_hit[OF e] m f add.commute)
      also have "\<dots> = map (nth s) (filter (\<lambda>j. \<not> in_date_token s j) [k + ?L..<length s])"
        using le inv pos k by (intro less.hyps) auto
      finally show ?thesis by (simp add: split cov)
    qed
  qed
qed

lemma re_sub_date_stripped: "re_sub date_pattern [] s = date_stripped s"
  using strip_from[of 0 s] by (simp add: re_sub_def date_stripped_def)

text \<open>
  The shape \<^verbatim>\<open>YYYY/MM[/DD]\<close>: four digits, a slash, one or two digits and, optionally, a
  slash and one or two digits.
\<close>

definition date_shaped :: "ustring \<Rightarrow> bool" where
  "date_shaped m =
     (\<exists>y mo tl. m = y @ 0x2F # mo @ tl
        \<and> length y = 4 \<and> list_all isdecimal y
        \<and> (length mo = 1 \<or> length mo = 2) \<and> list_all isdecimal mo
        \<and> (tl = [] \<or> (\<exists>d. tl = 0x2F # d \<and> (length d = 1 \<or> length d = 2) \<and> list_all isdecimal d)))"

lemma dc_digits_append:
  "list_all isdecimal y \<Longrightarrow> r = [] \<or> \<not> isdecimal (hd r) \<Longrightarrow> dc (y @ r) = length y"
proof -
  assume y: "list_all isdecimal y" and r: "r = [] \<or> \<not> isdecimal (hd r)"
  have "takeWhile isdecimal r = []" using r by (cases r) auto
  with y have "takeWhile isdecimal (y @ r) = y"
    by (simp add: takeWhile_append2 list_all_iff)
  then show ?thesis by (simp add: dc_def)
qed

lemma end_boundary_iff: "end_boundary r \<longleftrightarrow> (r = [] \<or> \<not> isword (hd r))"
  by (cases r) (simp_all add: end_boundary_def)

lemma start_boundary_prev_after: "start_boundary (prev_after None pre) \<longleftrightarrow> (pre = [] \<or> \<not> isword (last pre))"
  by (simp add: start_boundary_def prev_after_def)

lemma date_shaped_token:
  assumes "date_shaped m" "word_bounded pre post"
  shows "length m \<le> date_token_length (prev_after None pre) (m @ post)"
proof -
  from assms(1) obtain y mo tl where
    m: "m = y @ 0x2F # mo @ tl" and y: "length y = 4" "list_all isdecimal y"
    and mo: "length mo = 1 \<or> length mo = 2" "list_all isdecimal mo"
    and tl: "tl = [] \<or> (\<exists>d. tl = 0x2F # d \<and> (length d = 1 \<or> length d = 2) \<and> list_all isdecimal d)"
    by (auto simp: date_shaped_def)
  let ?rest = "m @ post"
  from assms(2) have sb: "start_boundary (prev_after None pre)" and eb: "end_boundary post"
    by (simp_all add: word_bounded_def start_boundary_prev_after end_boundary_iff)
  from eb have pnd: "post = [] \<or> \<not> isdecimal (hd post)"
    using isdecimal_isword by (auto simp: end_boundary_iff)
  have r0: "?rest = y @ (0x2F # mo @ tl @ post)" by (simp add: m)
  have c4: "dc ?rest = 4"
    unfolding r0 using dc_digits_append[OF y(2), of "0x2F # mo @ tl @ post"] y(1) not_decimal_slash
    by simp
  have d4: "drop 4 ?rest = 0x2F # mo @ tl @ post" unfolding r0 using y(1) by simp
  have d5: "drop 5 ?rest = mo @ tl @ post" unfolding r0 using y(1) by simp
  have tnd: "tl @ post = [] \<or> \<not> isdecimal (hd (tl @ post))"
    using tl pnd not_decimal_slash by auto
  have cmo: "dc (drop 5 ?rest) = length mo"
    unfolding d5 by (rule dc_digits_append[OF mo(2) tnd])
  have d5mo: "drop (5 + length mo) ?rest = tl @ post"
    unfolding r0 using y(1) by simp
  have s4: "starts_slash (drop 4 ?rest)" unfolding d4 by (simp add: starts_slash_def)
  from tl show ?thesis
  proof
    assume t: "tl = []"
    have e: "end_boundary (drop (5 + length mo) ?rest)" unfolding d5mo t using eb by simp
    have lm: "length m = 5 + length mo" using m y(1) t by simp
    show ?thesis
      using sb c4 s4 cmo mo(1) e lm
      by (auto simp: date_token_length_def Let_def)
  next
    assume "\<exists>d. tl = 0x2F # d \<and> (length d = 1 \<or> length d = 2) \<and> list_all isdecimal d"
    then obtain d where d: "tl = 0x2F # d" "length d = 1 \<or> length d = 2" "list_all isdecimal d"
      by blast
    have s5: "starts_slash (drop (5 + length mo) ?rest)"
      unfolding d5mo by (simp add: d(1) starts_slash_def)
    have d6: "drop (6 + length mo) ?rest = d @ post"
      unfolding r0 using y(1) by (simp add: d(1))
    have cd: "dc (drop (6 + length mo) ?rest) = length d"
      unfolding d6 by (rule dc_digits_append[OF d(3) pnd])
    have d6d: "drop (6 + length mo + length d) ?rest = post"
      unfolding r0 using y(1) by (simp add: d(1))
    have lm: "length m = 6 + length mo + length d" using m y(1) d(1) by simp
    show ?thesis
      using sb c4 s4 cmo mo(1) s5 cd d(2) d6d eb lm
      by (auto simp: date_token_length_def Let_def)
  qed
qed

lemma date_shaped_in_token:
  assumes "s = pre @ m @ post" "date_shaped m" "word_bounded pre post"
    "length pre \<le> j" "j < length pre + length m"
  shows "in_date_token s j"
proof -
  have "token_at s (length pre) = date_token_length (prev_after None pre) (m @ post)"
    by (simp add: token_at_def assms(1))
  with date_shaped_token[OF assms(2,3)] have "length m \<le> token_at s (length pre)" by simp
  with assms(4,5) show ?thesis by (auto simp: in_date_token_def intro: exI[of _ "length pre"])
qed

text \<open>
  C5. The first two strategies of \<^verbatim>\<open>extract_national_id\<close> read the normalized text
  without the characters that lie in a date token; every substring of the normalized
  text that has the shape \<^verbatim>\<open>YYYY/MM[/DD]\<close> and stands between word boundaries lies in a
  date token and is removed. On \<^verbatim>\<open>Issued 2019/05/12 ID 29901011234567\<close> the function
  returns \<^verbatim>\<open>29901011234567\<close>.
\<close>

theorem date_tokens_stripped:
  "extract_national_id text =
     (if text = [] then None
      else case re_search bounded_id_pattern (date_stripped (normalize_digits text)) of
             Some m \<Rightarrow> Some m
           | None \<Rightarrow>
              (case adjacent_sevens (digit_runs (date_stripped (normalize_digits text))) of
                 Some national_id \<Rightarrow> Some national_id
               | None \<Rightarrow> embedded_id (digit_runs (normalize_digits text))))
   \<and> (\<forall>pre m post j.
         normalize_digits text = pre @ m @ post \<and> date_shaped m \<and> word_bounded pre post
           \<and> length pre \<le> j \<and> j < length pre + length m
         \<longrightarrow> in_date_token (normalize_digits text) j)
   \<and> extract_national_id (u ''Issued 2019/05/12 ID 29901011234567'') = Some (u ''29901011234567'')"
proof -
  have a: "extract_national_id text =
     (if text = [] then None
      else case re_search bounded_id_pattern (date_stripped (normalize_digits text)) of
             Some m \<Rightarrow> Some m
           | None \<Rightarrow>
              (case adjacent_sevens (digit_runs (date_stripped (normalize_digits text))) of
                 Some national_id \<Rightarrow> Some national_id
               | None \<Rightarrow> embedded_id (digit_runs (normalize_digits text))))"
    unfolding extract_national_id_def Let_def re_sub_date_stripped re_findall_digits by simp
  have b: "in_date_token (normalize_digits text) j"
    if "normalize_digits text = pre @ m @ post \<and> date_shaped m \<and> word_bounded pre post
           \<and> length pre \<le> j \<and> j < length pre + length m" for pre m post j
    using that date_shaped_in_token by blast
  have c: "extract_national_id (u ''Issued 2019/05/12 ID 29901011234567'') = Some (u ''29901011234567'')"
    by (simp add: id_eval)
  from a b c show ?thesis by blast
qed

theorem date_tokens_stripped_witness:
  "normalize_digits (u ''Issued 2019/05/12 ID 29901011234567'')
     = u ''Issued '' @ u ''2019/05/12'' @ u '' ID 29901011234567''
   \<and> date_shaped (u ''2019/05/12'')
   \<and> word_bounded (u ''Issued '') (u '' ID 29901011234567'')
   \<and> in_date_token (normalize_digits (u ''Issued 2019/05/12 ID 29901011234567'')) 7
   \<and> in_date_token (normalize_digits (u ''Issued 2019/05/12 ID 29901011234567'')) 16
   \<and> date_stripped (normalize_digits (u ''Issued 2019/05/12 ID 29901011234567''))
       = u ''Issued  ID 29901011234567''"
proof -
  let ?t = "u ''Issued 2019/05/12 ID 29901011234567''"
  have n: "normalize_digits ?t = u ''Issued '' @ u ''2019/05/12'' @ u '' ID 29901011234567''"
    by (simp add: normalize_digits_def translate_def numeral_map_def u_def)
  have "u ''2019/05/12'' = u ''2019'' @ 0x2F # u ''05'' @ (0x2F # u ''12'')" by (simp add: u_def)
  moreover have "list_all isdecimal (u ''2019'')" "list_all isdecimal (u ''05'')" "list_all isdecimal (u ''12'')"
    by (simp_all add: u_def isdecimal_ascii)
  moreover have "length (u ''2019'') = 4" "length (u ''05'') = 2" "length (u ''12'') = 2"
    by (simp_all add: u_def)
  ultimately have s: "date_shaped (u ''2019/05/12'')"
    unfolding date_shaped_def by blast
  have w: "word_bounded (u ''Issued '') (u '' ID 29901011234567'')"
    by (simp add: word_bounded_def u_def isword_ascii)
  have l: "length (u ''Issued '') = 7" "length (u ''2019/05/12'') = 10" by (simp_all add: u_def)
  have all: "in_date_token (normalize_digits ?t) j"
    if "normalize_digits ?t = pre @ m @ post" "date_shaped m" "word_bounded pre post"
      "length pre \<le> j" "j < length pre + length m" for pre m post j
    using date_tokens_stripped[of ?t, THEN conjunct2, THEN conjunct1] that by blast
  have i: "in_date_token (normalize_digits ?t) 7" "in_date_token (normalize_digits ?t) 16"
    by (rule all[OF n s w]; simp add: l)+
  have "re_sub date_pattern [] (normalize_digits ?t) = u ''Issued  ID 29901011234567''"
    by (simp add: id_eval)
  then have d: "date_stripped (normalize_digits ?t) = u ''Issued  ID 29901011234567''"
    by (simp only: re_sub_date_stripped)
  from n s w i d show ?thesis by blast
qed

end
